theory Spec2Isabelle
  imports Complex_Main "HOL-Library.Signed_Division"
begin

section \<open>AudioBuffer: sample storage and mixing\<close>

text \<open>
  The engine's sample type (\<^verbatim>\<open>SAMPLE_TYPE\<close>, a C++ floating point type) is idealised as
  \<open>real\<close>: sums and products are exact.  The C++ \<^verbatim>\<open>int\<close> is modelled as \<open>int\<close>; signed
  overflow is undefined behaviour in the source and no operation below is used on sizes
  or offsets near the ends of the \<^verbatim>\<open>int\<close> range.

  Buffers are objects that the code reaches through pointers, and \<^verbatim>\<open>mergeBuffers\<close> updates
  one object while it reads another one, so the model keeps an explicit store from addresses
  to buffer objects.  A nullable pointer is an \<open>addr option\<close>.
\<close>

type_synonym SAMPLE_TYPE = real
type_synonym addr = nat

record AudioBuffer =
  loopeable :: bool
  amountOfChannels :: int
  bufferSize :: int
  buffers :: "SAMPLE_TYPE list list"

type_synonym heap = "addr \<Rightarrow> AudioBuffer"

text \<open>
  Everything the source can do besides returning: an array access outside its allocation,
  \<^verbatim>\<open>std::vector::at\<close> out of range, an integer division by zero, a null pointer that is
  dereferenced, an allocation of negative size, a float-to-int conversion of a value that
  is not finite.  \<open>NoFuel\<close> is the value of a recursion that was cut off.
\<close>

datatype fault = OutOfBounds | OutOfRange | DivisionByZero | NullPointer | BadAlloc | FloatToInt

datatype 'a outcome = Returns 'a | Faults fault | NoFuel

definition validChannel :: "AudioBuffer \<Rightarrow> int \<Rightarrow> bool" where
  "validChannel b c = (0 \<le> c \<and> c < int (length (buffers b)))"

definition validIndex :: "AudioBuffer \<Rightarrow> int \<Rightarrow> int \<Rightarrow> bool" where
  "validIndex b c i = (0 \<le> i \<and> i < int (length (buffers b ! nat c)))"

definition sampleAt :: "AudioBuffer \<Rightarrow> int \<Rightarrow> int \<Rightarrow> SAMPLE_TYPE" where
  "sampleAt b c i = buffers b ! nat c ! nat i"

definition setSample :: "AudioBuffer \<Rightarrow> int \<Rightarrow> int \<Rightarrow> SAMPLE_TYPE \<Rightarrow> AudioBuffer" where
  "setSample b c i v = b\<lparr>buffers := (buffers b)[nat c := (buffers b ! nat c)[nat i := v]]\<rparr>"

text \<open>
  The constructor gives every channel an array of \<open>bufferSize\<close> zeros (a copy of the pooled
  silent buffer or a freshly generated silent buffer).  A buffer is well formed when it still
  has that shape.
\<close>

definition wellFormed :: "AudioBuffer \<Rightarrow> bool" where
  "wellFormed b = (amountOfChannels b = int (length (buffers b)) \<and>
                   list_all (\<lambda>ch. int (length ch) = bufferSize b) (buffers b))"

text \<open>
  The inner loop of \<^verbatim>\<open>mergeBuffers\<close> (lines 104 to 115) for channel \<open>c\<close>:
  \<^verbatim>\<open>for ( int i = aWriteOffset, r = aReadOffset; i < maxWriteOffset; ++i, ++r )\<close>.
  \<open>this\<close> is the target object, \<open>a\<close> the source object, \<open>w\<close> is \<^verbatim>\<open>writtenSamples\<close>.
\<close>

function mergeSamples ::
  "addr \<Rightarrow> addr \<Rightarrow> int \<Rightarrow> int \<Rightarrow> real \<Rightarrow> int \<Rightarrow> int \<Rightarrow> int \<Rightarrow> heap \<Rightarrow> int \<Rightarrow> (heap \<times> int) outcome"
where
  "mergeSamples this a c sourceLength aMixVolume maxWriteOffset i r h w =
     (if i < maxWriteOffset then
        (if r \<ge> sourceLength \<and> \<not> loopeable (h a) then Returns (h, w)
         else
           (let r' = (if r \<ge> sourceLength then 0 else r) in
            if \<not> validIndex (h a) c r' \<or> \<not> validIndex (h this) c i then Faults OutOfBounds
            else mergeSamples this a c sourceLength aMixVolume maxWriteOffset (i + 1) (r' + 1)
                   (h(this := setSample (h this) c i
                        (sampleAt (h this) c i + sampleAt (h a) c r' * aMixVolume)))
                   (w + 1)))
      else Returns (h, w))"
  by pat_completeness auto
termination
  by (relation "measure (\<lambda>(this, a, c, sl, v, m, i, r, h, w). nat (m - i))") auto

text \<open>
  The loop over the channels (lines 96 to 116).  \<open>n\<close> is the target's \<^verbatim>\<open>amountOfChannels\<close>,
  a field that the loop never writes; the result carries the final value of \<open>c\<close>.
\<close>

function mergeChannels ::
  "addr \<Rightarrow> addr \<Rightarrow> int \<Rightarrow> int \<Rightarrow> real \<Rightarrow> int \<Rightarrow> int \<Rightarrow> int \<Rightarrow> int \<Rightarrow> int \<Rightarrow> heap \<Rightarrow> int
     \<Rightarrow> (heap \<times> int \<times> int) outcome"
where
  "mergeChannels this a aReadOffset aWriteOffset aMixVolume sourceLength maxSourceChannel
       maxWriteOffset n c h w =
     (if c < n then
        (if c > maxSourceChannel then Returns (h, w, c)
         else if \<not> validChannel (h a) c \<or> \<not> validChannel (h this) c then Faults OutOfRange
         else
           (case mergeSamples this a c sourceLength aMixVolume maxWriteOffset
                   aWriteOffset aReadOffset h w of
              Returns (h', w') \<Rightarrow>
                mergeChannels this a aReadOffset aWriteOffset aMixVolume sourceLength
                  maxSourceChannel maxWriteOffset n (c + 1) h' w'
            | Faults e \<Rightarrow> Faults e
            | NoFuel \<Rightarrow> NoFuel))
      else Returns (h, w, c))"
  by pat_completeness auto
termination
  by (relation "measure (\<lambda>(this, a, ro, wo, v, sl, msc, m, n, c, h, w). nat (n - c))") auto

text \<open>
  \<^verbatim>\<open>int AudioBuffer::mergeBuffers( AudioBuffer* aBuffer, int aReadOffset, int aWriteOffset,
  float aMixVolume )\<close>.  The division of two \<^verbatim>\<open>int\<close>s truncates towards zero (\<open>sdiv\<close>).
\<close>

definition mergeBuffers ::
  "heap \<Rightarrow> addr \<Rightarrow> addr option \<Rightarrow> int \<Rightarrow> int \<Rightarrow> real \<Rightarrow> (heap \<times> int) outcome"
where
  "mergeBuffers h this aBuffer aReadOffset aWriteOffset aMixVolume =
     (case aBuffer of
        None \<Rightarrow> Returns (h, 0)
      | Some a \<Rightarrow>
          if aWriteOffset \<ge> bufferSize (h this) then Returns (h, 0)
          else
            (let sourceLength = bufferSize (h a);
                 maxSourceChannel = amountOfChannels (h a) - 1;
                 writeLength = (if aWriteOffset + sourceLength > bufferSize (h this)
                                then bufferSize (h this) - aWriteOffset else sourceLength);
                 maxWriteOffset = aWriteOffset + writeLength
             in case mergeChannels this a aReadOffset aWriteOffset aMixVolume sourceLength
                       maxSourceChannel maxWriteOffset (amountOfChannels (h this)) 0 h 0 of
                  Returns (h', writtenSamples, c) \<Rightarrow>
                    if c = 0 then Faults DivisionByZero
                    else Returns (h', writtenSamples sdiv c)
                | Faults e \<Rightarrow> Faults e
                | NoFuel \<Rightarrow> NoFuel))"

subsection \<open>Auxiliary notions for the statements about mixing\<close>

text \<open>Two buffer objects have the same shape when they agree on everything but the samples.\<close>

definition sameShape :: "AudioBuffer \<Rightarrow> AudioBuffer \<Rightarrow> bool" where
  "sameShape b b' = (loopeable b' = loopeable b \<and> amountOfChannels b' = amountOfChannels b \<and>
     bufferSize b' = bufferSize b \<and> length (buffers b') = length (buffers b) \<and>
     (\<forall>k. length (buffers b' ! k) = length (buffers b ! k)))"

text \<open>
  The number of samples one run of the inner loop writes: \<open>len\<close> is \<^verbatim>\<open>writeLength\<close>,
  \<open>sl\<close> the source length and \<open>r\<close> the read offset.
\<close>

definition samplesPerChannel :: "bool \<Rightarrow> int \<Rightarrow> int \<Rightarrow> int \<Rightarrow> int" where
  "samplesPerChannel loop sl r len =
     (if len \<le> 0 then 0 else if loop then len else min len (max 0 (sl - r)))"

text \<open>Concrete stores for the examples: object 0 is \<open>t\<close>, every other object is \<open>s\<close>.\<close>

definition objectAfter :: "addr \<Rightarrow> (heap \<times> int) outcome \<Rightarrow> (SAMPLE_TYPE list list \<times> int) outcome" where
  "objectAfter x res = (case res of Returns (h', n) \<Rightarrow> Returns (buffers (h' x), n)
                          | Faults e \<Rightarrow> Faults e | NoFuel \<Rightarrow> NoFuel)"

definition mkBuffer :: "bool \<Rightarrow> SAMPLE_TYPE list list \<Rightarrow> AudioBuffer" where
  "mkBuffer lp chs = \<lparr>loopeable = lp, amountOfChannels = int (length chs),
       bufferSize = (case chs of [] \<Rightarrow> 0 | ch # _ \<Rightarrow> int (length ch)), buffers = chs\<rparr>"

definition twoBuffers :: "AudioBuffer \<Rightarrow> AudioBuffer \<Rightarrow> heap" where
  "twoBuffers t s = (\<lambda>x. if x = 0 then t else s)"


section \<open>SynthEvent: geometry, caching and rendering\<close>

text \<open>
  Sequencing an outcome with what follows it: a fault or an exhausted recursion ends the run.
\<close>

fun bnd :: "'a outcome \<Rightarrow> ('a \<Rightarrow> 'b outcome) \<Rightarrow> 'b outcome" where
  "bnd (Returns x) f = f x"
| "bnd (Faults e) f = Faults e"
| "bnd NoFuel f = NoFuel"

text \<open>The conversion \<^verbatim>\<open>(int) x\<close> of a floating point value truncates towards zero.\<close>

definition c_int :: "real \<Rightarrow> int" where
  "c_int x = (if 0 \<le> x then \<lfloor>x\<rfloor> else \<lceil>x\<rceil>)"

text \<open>
  Single precision.  The quotient of line 433 is a \<^verbatim>\<open>float\<close>: the sample rate, an \<^verbatim>\<open>int\<close>, is
  converted and divided by the \<^verbatim>\<open>float\<close> \<^verbatim>\<open>_frequency\<close>, and the result is the exact quotient
  rounded to the nearest value of the format (IEEE 754 binary32: 24 significant bits, exponents
  from -126 to 127, ties to the even significand).  \<open>binade x e\<close> is the exponent of the
  binade of \<open>x\<close>, searched upwards from \<open>e\<close> and not beyond 127; below \<open>2 powi (- 126)\<close> the
  values are spaced like those of exponent -126.  \<open>toFloat x\<close> is \<open>None\<close> when \<open>x\<close> rounds beyond
  the largest finite value.
\<close>

definition roundHalfEven :: "real \<Rightarrow> int" where
  "roundHalfEven x =
     (let n = \<lfloor>x\<rfloor>; d = x - of_int n
      in if d < 1 / 2 then n else if 1 / 2 < d then n + 1 else if even n then n else n + 1)"

function binade :: "real \<Rightarrow> int \<Rightarrow> int" where
  "binade x e = (if e < 127 \<and> 2 powi (e + 1) \<le> x then binade x (e + 1) else e)"
  by pat_completeness auto
termination
  by (relation "measure (\<lambda>(x, e). nat (127 - e))") auto

definition floatQuantum :: "real \<Rightarrow> real" where
  "floatQuantum x = 2 powi (binade \<bar>x\<bar> (- 126) - 23)"

definition nearestFloat :: "real \<Rightarrow> real" where
  "nearestFloat x =
     (if x < 0 then - (floatQuantum x * of_int (roundHalfEven (\<bar>x\<bar> / floatQuantum x)))
      else floatQuantum x * of_int (roundHalfEven (\<bar>x\<bar> / floatQuantum x)))"

definition toFloat :: "real \<Rightarrow> real option" where
  "toFloat x = (if \<bar>nearestFloat x\<bar> < 2 ^ 128 then Some (nearestFloat x) else None)"

text \<open>
  \<^verbatim>\<open>a / b\<close> for an \<^verbatim>\<open>int\<close> \<open>a\<close> and a \<^verbatim>\<open>float\<close> \<open>b\<close>.  With a divisor of 0 the result is an infinity
  or not a number, which \<open>None\<close> stands for as well.
\<close>

definition floatDiv :: "int \<Rightarrow> real \<Rightarrow> real option" where
  "floatDiv a b =
     (case toFloat (real_of_int a) of
        None \<Rightarrow> None
      | Some x \<Rightarrow> if b = 0 then None else toFloat (x / b))"

text \<open>
  \<^verbatim>\<open>(int) x\<close> for a \<^verbatim>\<open>float\<close> \<open>x\<close>: the conversion truncates, and it is undefined when \<open>x\<close> is not
  finite or the truncated value is not an \<^verbatim>\<open>int\<close> (of 32 bits).
\<close>

definition intOfFloat :: "real option \<Rightarrow> int outcome" where
  "intOfFloat x =
     (case x of
        None \<Rightarrow> Faults FloatToInt
      | Some v \<Rightarrow> if - 2147483649 < v \<and> v < 2147483648 then Returns (c_int v)
                  else Faults FloatToInt)"

text \<open>
  \<^verbatim>\<open>MAX_PHASE\<close> comes from \<^verbatim>\<open>global.h\<close>, which is not among the sources; line 591 of
  \<^verbatim>\<open>synthevent.cpp\<close> gives its value (``max range is 0 - 1'').  \<^verbatim>\<open>PI\<close> and \<^verbatim>\<open>TWO_PI\<close> are the
  usual constants.
\<close>

definition MAX_PHASE :: real where "MAX_PHASE = 1"
definition PI :: real where "PI = pi"
definition TWO_PI :: real where "TWO_PI = 2 * pi"

datatype WaveForms =
  SINE_WAVE | SAWTOOTH | SQUARE_WAVE | TRIANGLE | PWM | NOISE | KARPLUS_STRONG | OTHER_WAVEFORM

subsection \<open>RingBuffer\<close>

text \<open>
  Modelled from the spec: the class \<^verbatim>\<open>RingBuffer\<close> is not among the sources.  Section 4.2 of the
  specification: a FIFO queue of samples with a fixed capacity; \<open>enqueue\<close> pushes and evicts the
  oldest sample when the queue is at capacity, \<open>dequeue\<close> pops the oldest sample, \<open>peek\<close> reads
  it, \<open>flush\<close> empties the queue and keeps the capacity.  What an empty queue answers is not
  specified; the model answers 0.  A negative capacity cannot be allocated.
\<close>

record RingBuffer =
  capacity :: int
  queue :: "SAMPLE_TYPE list"

definition newRingBuffer :: "int \<Rightarrow> RingBuffer outcome" where
  "newRingBuffer n = (if n < 0 then Faults BadAlloc else Returns \<lparr>capacity = n, queue = []\<rparr>)"

definition enqueue :: "RingBuffer \<Rightarrow> SAMPLE_TYPE \<Rightarrow> RingBuffer" where
  "enqueue rb v =
     (let q = queue rb @ [v] in rb\<lparr>queue := (if capacity rb < int (length q) then tl q else q)\<rparr>)"

definition dequeue :: "RingBuffer \<Rightarrow> SAMPLE_TYPE \<times> RingBuffer" where
  "dequeue rb = (case queue rb of [] \<Rightarrow> (0, rb) | x # xs \<Rightarrow> (x, rb\<lparr>queue := xs\<rparr>))"

definition peek :: "RingBuffer \<Rightarrow> SAMPLE_TYPE" where
  "peek rb = (case queue rb of [] \<Rightarrow> 0 | x # xs \<Rightarrow> x)"

definition flush :: "RingBuffer \<Rightarrow> RingBuffer" where
  "flush rb = rb\<lparr>queue := []\<rparr>"

subsection \<open>The state of an event\<close>

text \<open>
  The member variables of one \<^verbatim>\<open>SynthEvent\<close> object, under the names of the source without the
  leading underscore (\<open>lengthSteps\<close> is \<^verbatim>\<open>length\<close>, \<open>wtype\<close> is \<^verbatim>\<open>_type\<close>).  The envelope and the
  arpeggiator are objects of classes that are not among the sources: their states are values
  of the type parameters \<open>'a\<close> and \<open>'p\<close>.  \<open>buffer\<close> is the pointer \<^verbatim>\<open>_buffer\<close>.
\<close>

record ('a, 'p) Fields =
  isSequenced :: bool
  hasParent :: bool
  position :: int
  lengthSteps :: real
  sampleStart :: int
  sampleEnd :: int
  sampleLength :: int
  cacheWriteIndex :: int
  minLength :: int
  hasMinLength :: bool
  queuedForDeletion :: bool
  deleteMe :: bool
  locked :: bool
  updateAfterUnlock :: bool
  cancel :: bool
  caching :: bool
  cachingCompleted :: bool
  autoCache :: bool
  bulkCacheable :: bool
  wtype :: WaveForms
  frequency :: real
  baseFrequency :: real
  phase :: real
  phaseIncr :: real
  volume :: real
  pwmValue :: real
  ringBufferSize :: int
  ringBuffer :: "RingBuffer option"
  buffer :: "addr option"
  adsr :: 'a
  arpeggiator :: "'p option"

text \<open>
  An event and its secondary oscillator.  The secondary oscillator is an event constructed
  with \<^verbatim>\<open>hasParent = true\<close>, for which \<^verbatim>\<open>init\<close> creates no secondary oscillator of its own
  (line 736), and the pointer \<^verbatim>\<open>_osc2\<close> is never handed out: the nesting has depth two.
\<close>

datatype ('a, 'p) SynthEvent =
  SynthEvent (osc1: "('a, 'p) Fields") (osc2: "('a, 'p) Fields option")

text \<open>
  The store of buffer objects with the next free address of the allocator, and the number of
  calls of \<^verbatim>\<open>randomFloat\<close> so far.
\<close>

record world =
  objs :: heap
  nextFree :: addr
  randomCalls :: nat

text \<open>
  What the code takes from outside \<^verbatim>\<open>synthevent.cpp\<close>: the constants of \<^verbatim>\<open>AudioEngineProps\<close> and
  \<^verbatim>\<open>AudioEngine\<close>, the random number generator (as the sequence of the values it returns), the
  envelope and the arpeggiator, the base class's \<^verbatim>\<open>resetCache\<close> and \<^verbatim>\<open>mixBuffer\<close>, and the bulk
  cacher.  \<open>cancelRequested i\<close> says that another thread has set \<^verbatim>\<open>_cancel\<close> (line 259) by the
  time the render loop tests the flag at sample index \<open>i\<close>; with \<open>\<lambda>i. False\<close> the model is the
  sequential code.
\<close>

record ('a, 'p) Externals =
  EVENT_CACHING :: bool
  BUFFER_SIZE :: int
  OUTPUT_CHANNELS :: int
  SAMPLE_RATE :: int
  bytes_per_tick :: int
  bytes_per_bar :: int
  randomFloat :: "nat \<Rightarrow> SAMPLE_TYPE"
  cancelRequested :: "int \<Rightarrow> bool"
  adsr_setBufferLength :: "'a \<Rightarrow> int \<Rightarrow> 'a"
  adsr_apply :: "'a \<Rightarrow> AudioBuffer \<Rightarrow> int \<Rightarrow> 'a \<times> AudioBuffer"
  arp_peek :: "'p \<Rightarrow> bool \<times> 'p"
  arp_getStep :: "'p \<Rightarrow> int"
  arp_getPitchForStep :: "'p \<Rightarrow> int \<Rightarrow> real \<Rightarrow> real"
  baseResetCache :: "('a, 'p) Fields \<Rightarrow> ('a, 'p) Fields"
  baseMixBuffer :: "world \<Rightarrow> ('a, 'p) SynthEvent \<Rightarrow> addr \<Rightarrow> int \<Rightarrow> int \<Rightarrow> int \<Rightarrow> bool \<Rightarrow> int \<Rightarrow> bool
                      \<Rightarrow> (world \<times> ('a, 'p) SynthEvent) outcome"
  cacheQueue :: "world \<Rightarrow> world"

subsection \<open>Buffer objects: construction and silence\<close>

text \<open>
  The constructor of \<^verbatim>\<open>AudioBuffer\<close> (lines 28 to 61 of the buffer source): every channel is an
  array of \<open>aBufferSize\<close> zeros.  Modelled from the spec: \<^verbatim>\<open>BufferPool::getSilentBuffer\<close> and
  \<^verbatim>\<open>BufferUtility::generateSilentBuffer\<close> are not among the sources; both give zero-filled
  sample arrays.
\<close>

definition newAudioBuffer :: "int \<Rightarrow> int \<Rightarrow> AudioBuffer outcome" where
  "newAudioBuffer aAmountOfChannels aBufferSize =
     (if aAmountOfChannels < 0 \<or> (0 < aAmountOfChannels \<and> aBufferSize < 0) then Faults BadAlloc
      else Returns \<lparr>loopeable = False, amountOfChannels = aAmountOfChannels,
                    bufferSize = aBufferSize,
                    buffers = replicate (nat aAmountOfChannels) (replicate (nat aBufferSize) 0)\<rparr>)"

definition allocate :: "world \<Rightarrow> int \<Rightarrow> int \<Rightarrow> (world \<times> addr) outcome" where
  "allocate w aAmountOfChannels aBufferSize =
     bnd (newAudioBuffer aAmountOfChannels aBufferSize)
       (\<lambda>b. Returns (w\<lparr>objs := (objs w)(nextFree w := b), nextFree := Suc (nextFree w)\<rparr>, nextFree w))"

text \<open>
  \<^verbatim>\<open>AudioBuffer::silenceBuffers\<close>: the first \<open>bufferSize\<close> samples of each of the
  \<open>amountOfChannels\<close> channels become zero.
\<close>

definition silenceBuffers :: "AudioBuffer \<Rightarrow> AudioBuffer outcome" where
  "silenceBuffers b =
     (if int (length (buffers b)) < amountOfChannels b then Faults OutOfRange
      else if list_ex (\<lambda>ch. int (length ch) < bufferSize b)
                (take (nat (amountOfChannels b)) (buffers b)) then Faults OutOfBounds
      else Returns (b\<lparr>buffers :=
             map (\<lambda>ch. replicate (nat (bufferSize b)) 0 @ drop (nat (bufferSize b)) ch)
                 (take (nat (amountOfChannels b)) (buffers b))
             @ drop (nat (amountOfChannels b)) (buffers b)\<rparr>))"

text \<open>
  Modelled from the spec: \<^verbatim>\<open>destroyBuffer\<close> belongs to the base class, which is not among the
  sources; it releases the buffer the event owns (``clear previous buffer contents'',
  line 311), after which the event has none.
\<close>

definition destroyBuffer :: "('a, 'p) Fields \<Rightarrow> ('a, 'p) Fields" where
  "destroyBuffer f = f\<lparr>buffer := None\<rparr>"

subsection \<open>Frequency and the plucked-string ring buffer\<close>

text \<open>
  The loop of lines 448 to 449: \<open>n\<close> calls of \<^verbatim>\<open>enqueue( randomFloat() )\<close>, where \<open>k\<close> calls of
  \<^verbatim>\<open>randomFloat\<close> were made before.
\<close>

fun fillNoise :: "(nat \<Rightarrow> SAMPLE_TYPE) \<Rightarrow> nat \<Rightarrow> nat \<Rightarrow> RingBuffer \<Rightarrow> RingBuffer" where
  "fillNoise rnd 0 k rb = rb"
| "fillNoise rnd (Suc n) k rb = fillNoise rnd n (Suc k) (enqueue rb (rnd k))"

text \<open>
  \<^verbatim>\<open>SynthEvent::initKarplusStrong\<close> (lines 429 to 450).  The size is the single precision
  quotient of the sample rate and the frequency, converted by \<^verbatim>\<open>(int)\<close>; the call has no
  defined behaviour when that conversion has none.
\<close>

definition initKarplusStrong ::
  "('a, 'p) Externals \<Rightarrow> world \<Rightarrow> ('a, 'p) Fields \<Rightarrow> (world \<times> ('a, 'p) Fields) outcome"
where
  "initKarplusStrong ext w f =
     bnd (intOfFloat (floatDiv (SAMPLE_RATE ext) (frequency f)))
       (\<lambda>n. let prevRingBufferSize = ringBufferSize f;
                newSize = (n \<noteq> prevRingBufferSize);
                kept = (if isSequenced f \<and> (ringBuffer f \<noteq> None \<and> newSize) then None
                        else ringBuffer f)
            in bnd (case kept of None \<Rightarrow> newRingBuffer n | Some rb \<Rightarrow> Returns (flush rb))
                 (\<lambda>rb. Returns
                    (w\<lparr>randomCalls := randomCalls w + nat n\<rparr>,
                     f\<lparr>ringBufferSize := n,
                       ringBuffer := Some (fillNoise (randomFloat ext) (nat n) (randomCalls w) rb)\<rparr>)))"

text \<open>
  \<^verbatim>\<open>SynthEvent::setFrequency\<close> (lines 198 to 220).  \<open>setFrequencyOsc\<close> is the part that concerns
  the oscillator itself (lines 200 to 210), which is all the call does on a secondary
  oscillator.
\<close>

definition setFrequencyOsc ::
  "('a, 'p) Externals \<Rightarrow> real \<Rightarrow> bool \<Rightarrow> world \<Rightarrow> ('a, 'p) Fields \<Rightarrow> (world \<times> ('a, 'p) Fields) outcome"
where
  "setFrequencyOsc ext aFrequency storeAsBaseFrequency w f =
     (let f1 = f\<lparr>frequency := aFrequency,
                 phaseIncr := aFrequency / real_of_int (SAMPLE_RATE ext)\<rparr>;
          f2 = (if storeAsBaseFrequency then f1\<lparr>baseFrequency := aFrequency\<rparr> else f1)
      in if wtype f2 = KARPLUS_STRONG then initKarplusStrong ext w f2 else Returns (w, f2))"

definition setFrequency ::
  "('a, 'p) Externals \<Rightarrow> real \<Rightarrow> bool \<Rightarrow> bool \<Rightarrow> world \<Rightarrow> ('a, 'p) SynthEvent
     \<Rightarrow> (world \<times> ('a, 'p) SynthEvent) outcome"
where
  "setFrequency ext aFrequency allOscillators storeAsBaseFrequency w e =
     (let currentFreq = frequency (osc1 e) in
      bnd (setFrequencyOsc ext aFrequency storeAsBaseFrequency w (osc1 e))
        (\<lambda>(w1, f1).
           case osc2 e of
             Some c \<Rightarrow>
               if allOscillators then
                 (let multiplier = aFrequency / currentFreq in
                  bnd (setFrequencyOsc ext (frequency c * multiplier) storeAsBaseFrequency w1 c)
                    (\<lambda>(w2, c1). Returns (w2, SynthEvent f1 (Some c1))))
               else Returns (w1, SynthEvent f1 (Some c))
           | None \<Rightarrow> Returns (w1, SynthEvent f1 None)))"

text \<open>
  The frequency \<^verbatim>\<open>createOSC2\<close> gives the secondary oscillator (lines 791 to 808), from the
  frequency of the event and the instrument's detune (in cents), octave shift and fine shift.
\<close>

definition osc2Frequency :: "real \<Rightarrow> real \<Rightarrow> int \<Rightarrow> int \<Rightarrow> real" where
  "osc2Frequency freq osc2detune osc2octaveShift osc2fineShift =
     (let lfo2Tmpfreq = freq + (freq / 1200 * osc2detune);
          lfo2freq =
            (if osc2octaveShift \<noteq> 0 then
               (if osc2octaveShift < 0
                then lfo2Tmpfreq / \<bar>real_of_int (osc2octaveShift * 2)\<bar>
                else lfo2Tmpfreq + lfo2Tmpfreq * \<bar>real_of_int (osc2octaveShift * 2) - 1\<bar>)
             else lfo2Tmpfreq);
          fineShift = lfo2Tmpfreq / 12 * real_of_int \<bar>osc2fineShift\<bar>
      in if osc2fineShift < 0 then lfo2freq - fineShift else lfo2freq + fineShift)"

subsection \<open>Cache bookkeeping and deletion\<close>

text \<open>\<^verbatim>\<open>SynthEvent::resetCache\<close> (lines 872 to 878).\<close>

definition resetCache :: "('a, 'p) Externals \<Rightarrow> ('a, 'p) SynthEvent \<Rightarrow> ('a, 'p) SynthEvent" where
  "resetCache ext e =
     SynthEvent (baseResetCache ext (osc1 e)) (map_option (baseResetCache ext) (osc2 e))"

text \<open>\<^verbatim>\<open>SynthEvent::setDeletable\<close> (lines 661 to 674).\<close>

definition setDeletableOsc :: "bool \<Rightarrow> ('a, 'p) Fields \<Rightarrow> ('a, 'p) Fields" where
  "setDeletableOsc v f =
     (if isSequenced f \<or> hasMinLength f then f\<lparr>deleteMe := v\<rparr> else f\<lparr>queuedForDeletion := v\<rparr>)"

definition setDeletable :: "bool \<Rightarrow> ('a, 'p) SynthEvent \<Rightarrow> ('a, 'p) SynthEvent" where
  "setDeletable v e =
     SynthEvent (setDeletableOsc v (osc1 e)) (map_option (setDeletableOsc v) (osc2 e))"

subsection \<open>One sample of the synthesis loop\<close>

text \<open>The constants \<^verbatim>\<open>init\<close> sets for the waveform generators (lines 726 to 729).\<close>

definition TWO_PI_OVER_SR :: "('a, 'p) Externals \<Rightarrow> real" where
  "TWO_PI_OVER_SR ext = TWO_PI / real_of_int (SAMPLE_RATE ext)"

definition pwr :: real where "pwr = PI / 1.05"
definition pwAmp :: real where "pwAmp = 0.075"
definition EnergyDecayFactor :: real where "EnergyDecayFactor = 0.990"

text \<open>
  The \<^verbatim>\<open>switch ( _type )\<close> of lines 481 to 584: the amplitude of sample \<open>i\<close>.  \<open>amp\<close> is the
  value the variable holds from the iteration before; a type outside the cases leaves it.
\<close>

definition waveform ::
  "('a, 'p) Externals \<Rightarrow> int \<Rightarrow> SAMPLE_TYPE \<Rightarrow> world \<Rightarrow> ('a, 'p) Fields
     \<Rightarrow> (SAMPLE_TYPE \<times> world \<times> ('a, 'p) Fields) outcome"
where
  "waveform ext i amp w f =
     (case wtype f of
        SINE_WAVE \<Rightarrow>
          Returns ((if phase f < 0.5
                    then (let tmp = phase f * 4.0 - 1.0 in 1.0 - tmp * tmp)
                    else (let tmp = phase f * 4.0 - 3.0 in tmp * tmp - 1.0)) * 0.7, w, f)
      | SAWTOOTH \<Rightarrow>
          Returns ((if phase f < 0 then phase f - real_of_int (c_int (phase f - 1))
                    else phase f - real_of_int (c_int (phase f))), w, f)
      | SQUARE_WAVE \<Rightarrow>
          Returns ((if phase f < 0.5
                    then (let tmp = TWO_PI * (phase f * 4.0 - 1.0) in 1.0 - tmp * tmp)
                    else (let tmp = TWO_PI * (phase f * 4.0 - 3.0) in tmp * tmp - 1.0)) * 0.01, w, f)
      | TRIANGLE \<Rightarrow>
          (let a = (if phase f < 0.5
                    then (let tmp = phase f * 4.0 - 1.0 in (1.0 - tmp * tmp) * 0.75)
                    else (let tmp = phase f * 4.0 - 3.0 in (tmp * tmp - 1.0) * 0.75))
           in Returns ((if a < 0 then - a else a), w, f))
      | PWM \<Rightarrow>
          (let pv = pwmValue f + 1;
               pmv = real_of_int i + pv;
               dpw = sin (pmv / 18432) * pwr;
               a = (if phase f < PI - dpw then pwAmp else - pwAmp);
               ph = phase f + TWO_PI_OVER_SR ext * frequency f;
               ph' = (if ph > TWO_PI then ph - TWO_PI else ph)
           in Returns (a * 4, w, f\<lparr>phase := ph', pwmValue := pv\<rparr>))
      | NOISE \<Rightarrow>
          Returns ((if phase f < 0.5
                    then (let tmp = phase f * 4.0 - 1.0 in 1.0 - tmp * tmp)
                    else (let tmp = phase f * 4.0 - 3.0 in tmp * tmp - 1.0))
                     * randomFloat ext (randomCalls w),
                   w\<lparr>randomCalls := Suc (randomCalls w)\<rparr>, f)
      | KARPLUS_STRONG \<Rightarrow>
          (case ringBuffer f of
             None \<Rightarrow> Faults NullPointer
           | Some rb \<Rightarrow>
               (let (x, rb1) = dequeue rb;
                    y = peek rb1;
                    rb2 = enqueue rb1 (EnergyDecayFactor * ((x + y) / 2))
                in Returns (peek rb2, w, f\<lparr>ringBuffer := Some rb2\<rparr>)))
      | OTHER_WAVEFORM \<Rightarrow> Returns (amp, w, f))"

text \<open>The phase update of lines 587 to 594.\<close>

definition advancePhase :: "('a, 'p) Fields \<Rightarrow> ('a, 'p) Fields" where
  "advancePhase f =
     (if wtype f \<noteq> PWM then
        (let ph = phase f + phaseIncr f
         in f\<lparr>phase := (if ph > MAX_PHASE then ph - MAX_PHASE else ph)\<rparr>)
      else f)"

text \<open>The arpeggiator step of lines 597 to 602.\<close>

definition stepArpeggiator ::
  "('a, 'p) Externals \<Rightarrow> world \<Rightarrow> ('a, 'p) SynthEvent \<Rightarrow> (world \<times> ('a, 'p) SynthEvent) outcome"
where
  "stepArpeggiator ext w e =
     (case arpeggiator (osc1 e) of
        None \<Rightarrow> Returns (w, e)
      | Some arp \<Rightarrow>
          (let (stepped, arp') = arp_peek ext arp;
               e1 = SynthEvent ((osc1 e)\<lparr>arpeggiator := Some arp'\<rparr>) (osc2 e)
           in if stepped
              then setFrequency ext
                     (arp_getPitchForStep ext arp' (arp_getStep ext arp') (baseFrequency (osc1 e1)))
                     True False w e1
              else Returns (w, e1)))"

text \<open>
  The loop of lines 607 to 608: sample \<open>i\<close> of every channel \<open>c\<close> up to \<open>ca\<close> of the buffer
  object at \<open>out\<close> becomes \<open>v\<close>.
\<close>

function writeChannels :: "addr \<Rightarrow> int \<Rightarrow> SAMPLE_TYPE \<Rightarrow> int \<Rightarrow> int \<Rightarrow> heap \<Rightarrow> heap outcome" where
  "writeChannels out i v ca c h =
     (if c < ca then
        (if \<not> validChannel (h out) c then Faults OutOfRange
         else if \<not> validIndex (h out) c i then Faults OutOfBounds
         else writeChannels out i v ca (c + 1) (h(out := setSample (h out) c i v)))
      else Returns h)"
  by pat_completeness auto
termination
  by (relation "measure (\<lambda>(out, i, v, ca, c, h). nat (ca - c))") auto

text \<open>
  The body of the loop for sample \<open>i\<close>, up to the test of \<^verbatim>\<open>_cancel\<close> (lines 481 to 608).  The
  flag the loop tests next is the event's own, or set by a request from outside.
\<close>

definition renderSample ::
  "('a, 'p) Externals \<Rightarrow> addr \<Rightarrow> bool \<Rightarrow> int \<Rightarrow> SAMPLE_TYPE \<Rightarrow> world \<Rightarrow> ('a, 'p) SynthEvent
     \<Rightarrow> (SAMPLE_TYPE \<times> world \<times> ('a, 'p) SynthEvent) outcome"
where
  "renderSample ext out hasOSC2 i amp w e =
     bnd (waveform ext i amp w (osc1 e))
       (\<lambda>(amp1, w1, f1).
          bnd (stepArpeggiator ext w1 (SynthEvent (advancePhase f1) (osc2 e)))
            (\<lambda>(w2, e2).
               let amp2 = (if hasOSC2 then amp1 * 0.5 else amp1) in
               bnd (writeChannels out i (amp2 * volume (osc1 e2))
                      (amountOfChannels (objs w2 out)) 0 (objs w2))
                 (\<lambda>h. Returns
                    (amp2, w2\<lparr>objs := h\<rparr>,
                     SynthEvent ((osc1 e2)\<lparr>cancel := (cancel (osc1 e2) \<or> cancelRequested ext i)\<rparr>)
                       (osc2 e2)))))"

text \<open>
  The synthesis loop, \<^verbatim>\<open>for ( i = renderStartOffset; i < renderEndOffset; ++i )\<close> (lines 479 to
  613).  The result carries the value of \<open>i\<close> after the loop: a \<^verbatim>\<open>break\<close> leaves it at the
  sample just written.
\<close>

function renderLoop ::
  "('a, 'p) Externals \<Rightarrow> addr \<Rightarrow> bool \<Rightarrow> int \<Rightarrow> int \<Rightarrow> SAMPLE_TYPE \<Rightarrow> world \<Rightarrow> ('a, 'p) SynthEvent
     \<Rightarrow> (world \<times> ('a, 'p) SynthEvent \<times> int) outcome"
where
  "renderLoop ext out hasOSC2 renderEndOffset i amp w e =
     (if i < renderEndOffset then
        (case renderSample ext out hasOSC2 i amp w e of
           Returns (amp', w', e') \<Rightarrow>
             if cancel (osc1 e') then Returns (w', e', i)
             else renderLoop ext out hasOSC2 renderEndOffset (i + 1) amp' w' e'
         | Faults x \<Rightarrow> Faults x
         | NoFuel \<Rightarrow> NoFuel)
      else Returns (w, e, i))"
  by pat_completeness auto
termination
  by (relation "measure (\<lambda>(ext, out, hasOSC2, m, i, amp, w, e). nat (m - i))") auto

subsection \<open>\<^verbatim>\<open>SynthEvent::render\<close>, stage by stage\<close>

text \<open>
  The render window (lines 467 to 477): the first index, the last possible index of the
  event, and the end of the window, clipped to that last index.
\<close>

definition renderStartOffset :: "('a, 'p) Externals \<Rightarrow> ('a, 'p) SynthEvent \<Rightarrow> int" where
  "renderStartOffset ext e =
     (if EVENT_CACHING ext \<and> isSequenced (osc1 e) then cacheWriteIndex (osc1 e) else 0)"

definition maxSampleIndex :: "('a, 'p) SynthEvent \<Rightarrow> int" where
  "maxSampleIndex e = sampleLength (osc1 e) - 1"

definition windowClipped :: "('a, 'p) Externals \<Rightarrow> ('a, 'p) SynthEvent \<Rightarrow> int \<Rightarrow> bool" where
  "windowClipped ext e bufferLength = (renderStartOffset ext e + bufferLength > maxSampleIndex e)"

definition renderEndOffset :: "('a, 'p) Externals \<Rightarrow> ('a, 'p) SynthEvent \<Rightarrow> int \<Rightarrow> int" where
  "renderEndOffset ext e bufferLength =
     (if windowClipped ext e bufferLength then maxSampleIndex e
      else renderStartOffset ext e + bufferLength)"

text \<open>Lines 473 to 477: a clipped window silences the output buffer before the loop.\<close>

definition renderPrologue ::
  "('a, 'p) Externals \<Rightarrow> addr \<Rightarrow> world \<Rightarrow> ('a, 'p) SynthEvent \<Rightarrow> world outcome"
where
  "renderPrologue ext out w e =
     (if windowClipped ext e (bufferSize (objs w out))
      then bnd (silenceBuffers (objs w out)) (\<lambda>b. Returns (w\<lparr>objs := (objs w)(out := b)\<rparr>))
      else Returns w)"

text \<open>
  Lines 457 to 613: the prologue and the synthesis loop.  \<open>renderSynthesis\<close> is the state when
  the loop is left: the store, the event and the value of \<open>i\<close>.
\<close>

definition renderSynthesis ::
  "('a, 'p) Externals \<Rightarrow> addr \<Rightarrow> world \<Rightarrow> ('a, 'p) SynthEvent
     \<Rightarrow> (world \<times> ('a, 'p) SynthEvent \<times> int) outcome"
where
  "renderSynthesis ext out w e =
     bnd (renderPrologue ext out w e)
       (\<lambda>w0. renderLoop ext out (osc2 e \<noteq> None)
                (renderEndOffset ext e (bufferSize (objs w out)))
                (renderStartOffset ext e) 0 w0 e)"

text \<open>
  Lines 617 to 627: the secondary oscillator renders into a temporary buffer, which is merged
  into the output buffer.  \<open>renderChild\<close> stands for the call \<^verbatim>\<open>_osc2->render( tempBuffer )\<close>;
  \<open>hasOSC2\<close>, \<open>bufferLength\<close>, \<open>startOffset\<close> and \<open>endOffset\<close> are the local variables that
  were set on entry.
\<close>

definition renderOSC2 ::
  "('a, 'p) Externals
     \<Rightarrow> (world \<Rightarrow> addr option \<Rightarrow> ('a, 'p) SynthEvent \<Rightarrow> (world \<times> ('a, 'p) SynthEvent) outcome)
     \<Rightarrow> addr \<Rightarrow> bool \<Rightarrow> int \<Rightarrow> int \<Rightarrow> int \<Rightarrow> world \<Rightarrow> ('a, 'p) SynthEvent
     \<Rightarrow> (world \<times> ('a, 'p) SynthEvent) outcome"
where
  "renderOSC2 ext renderChild out hasOSC2 bufferLength startOffset endOffset w e =
     (if hasOSC2 \<and> \<not> cancel (osc1 e) then
        (let tempLength = (if EVENT_CACHING ext \<and> isSequenced (osc1 e)
                           then endOffset - cacheWriteIndex (osc1 e) else bufferLength)
         in bnd (allocate w (amountOfChannels (objs w out)) tempLength)
              (\<lambda>(w1, tempBuffer).
                 case osc2 e of
                   None \<Rightarrow> Faults NullPointer
                 | Some c \<Rightarrow>
                     bnd (renderChild w1 (Some tempBuffer) (SynthEvent c None))
                       (\<lambda>(w2, ce).
                          bnd (mergeBuffers (objs w2) out (Some tempBuffer) 0 startOffset MAX_PHASE)
                            (\<lambda>(h, n). Returns (w2\<lparr>objs := h\<rparr>, SynthEvent (osc1 e) (Some (osc1 ce)))))))
      else Returns (w, e))"

text \<open>Lines 630 to 634: the envelope, and the cache write index grows by \<open>i\<close>.\<close>

definition renderEnvelope ::
  "('a, 'p) Externals \<Rightarrow> addr \<Rightarrow> int \<Rightarrow> world \<Rightarrow> ('a, 'p) SynthEvent \<Rightarrow> world \<times> ('a, 'p) SynthEvent"
where
  "renderEnvelope ext out i w e =
     (if \<not> hasParent (osc1 e) then
        (let (a, b) = adsr_apply ext (adsr (osc1 e)) (objs w out) (cacheWriteIndex (osc1 e))
         in (w\<lparr>objs := (objs w)(out := b)\<rparr>,
             SynthEvent ((osc1 e)\<lparr>adsr := a, cacheWriteIndex := cacheWriteIndex (osc1 e) + i\<rparr>) (osc2 e)))
      else (w, e))"

text \<open>
  Lines 636 to 658: the end of a render pass.  \<open>recalculate\<close> stands for the call of
  \<^verbatim>\<open>calculateBuffers\<close> on line 646; \<open>maxIndex\<close> is the local \<^verbatim>\<open>maxSampleIndex\<close>.
\<close>

definition renderEpilogue ::
  "('a, 'p) Externals
     \<Rightarrow> (world \<Rightarrow> ('a, 'p) SynthEvent \<Rightarrow> (world \<times> ('a, 'p) SynthEvent) outcome)
     \<Rightarrow> int \<Rightarrow> int \<Rightarrow> world \<Rightarrow> ('a, 'p) SynthEvent \<Rightarrow> (world \<times> ('a, 'p) SynthEvent) outcome"
where
  "renderEpilogue ext recalculate maxIndex i w e =
     bnd (if EVENT_CACHING ext \<and> isSequenced (osc1 e) then
            (let e1 = SynthEvent ((osc1 e)\<lparr>caching := False\<rparr>) (osc2 e) in
             if cancel (osc1 e1) then recalculate w e1
             else
               (let f2 = (if i = maxIndex then (osc1 e1)\<lparr>cachingCompleted := True\<rparr> else osc1 e1);
                    f3 = (if bulkCacheable f2 then f2\<lparr>autoCache := True\<rparr> else f2)
                in Returns (w, SynthEvent f3 (osc2 e1))))
          else Returns (w, e))
       (\<lambda>(w', e'). Returns (w', SynthEvent ((osc1 e')\<lparr>cancel := False\<rparr>) (osc2 e')))"

text \<open>
  \<^verbatim>\<open>void SynthEvent::render( AudioBuffer* aOutputBuffer )\<close> (lines 457 to 659), with the two
  calls that lead back into \<^verbatim>\<open>render\<close> as parameters.
\<close>

definition renderBody ::
  "('a, 'p) Externals
     \<Rightarrow> (world \<Rightarrow> addr option \<Rightarrow> ('a, 'p) SynthEvent \<Rightarrow> (world \<times> ('a, 'p) SynthEvent) outcome)
     \<Rightarrow> (world \<Rightarrow> ('a, 'p) SynthEvent \<Rightarrow> (world \<times> ('a, 'p) SynthEvent) outcome)
     \<Rightarrow> world \<Rightarrow> addr option \<Rightarrow> ('a, 'p) SynthEvent \<Rightarrow> (world \<times> ('a, 'p) SynthEvent) outcome"
where
  "renderBody ext renderChild recalculate w aOutputBuffer e =
     (case aOutputBuffer of
        None \<Rightarrow> Faults NullPointer
      | Some out \<Rightarrow>
          bnd (renderSynthesis ext out w e)
            (\<lambda>(w1, e1, i).
               bnd (renderOSC2 ext renderChild out (osc2 e \<noteq> None) (bufferSize (objs w out))
                      (renderStartOffset ext e) (renderEndOffset ext e (bufferSize (objs w out)))
                      w1 e1)
                 (\<lambda>(w2, e2).
                    let (w3, e3) = renderEnvelope ext out i w2 e2
                    in renderEpilogue ext recalculate (maxSampleIndex e) i w3 e3)))"

subsection \<open>\<^verbatim>\<open>calculateBuffers\<close> and \<^verbatim>\<open>cache\<close>\<close>

text \<open>
  Lines 285 to 305 of \<^verbatim>\<open>calculateBuffers\<close>: the sample window of the event, with the length
  it had before (\<^verbatim>\<open>oldLength\<close>).
\<close>

definition calculateGeometry ::
  "('a, 'p) Externals \<Rightarrow> ('a, 'p) Fields \<Rightarrow> int \<times> ('a, 'p) Fields"
where
  "calculateGeometry ext f =
     (let (oldLength, f1) =
            (if isSequenced f then
               (let fc = (if caching f then f\<lparr>cancel := True\<rparr> else f);
                    len = c_int (lengthSteps fc * real_of_int (bytes_per_tick ext));
                    start = position fc * bytes_per_tick ext
                in (sampleLength fc,
                    fc\<lparr>sampleLength := len, sampleStart := start, sampleEnd := start + len\<rparr>))
             else
               (BUFFER_SIZE ext,
                f\<lparr>minLength := bytes_per_bar ext sdiv 32, sampleLength := bytes_per_bar ext,
                  hasMinLength := False\<rparr>))
      in (oldLength, f1\<lparr>adsr := adsr_setBufferLength ext (adsr f1) (sampleLength f1)\<rparr>))"

text \<open>Lines 307 to 324: a new buffer when the length changed or the event has none.\<close>

definition reallocateBuffer ::
  "('a, 'p) Externals \<Rightarrow> world \<Rightarrow> int \<Rightarrow> ('a, 'p) Fields \<Rightarrow> (world \<times> ('a, 'p) Fields) outcome"
where
  "reallocateBuffer ext w oldLength f =
     (if sampleLength f \<noteq> oldLength \<or> buffer f = None then
        (let f3 = destroyBuffer f in
         if \<not> hasParent f3 then
           bnd (allocate w (OUTPUT_CHANNELS ext)
                  (if EVENT_CACHING ext \<and> isSequenced f3 then sampleLength f3
                   else BUFFER_SIZE ext))
             (\<lambda>(w1, b). Returns (w1, f3\<lparr>buffer := Some b\<rparr>))
         else Returns (w, f3))
      else Returns (w, f))"

text \<open>
  Lines 326 to 344: a sequenced event renews its ring buffer and its cache.  \<open>recache\<close>
  stands for the call \<^verbatim>\<open>cache( false )\<close> of line 339.
\<close>

definition restartCache ::
  "('a, 'p) Externals
     \<Rightarrow> (world \<Rightarrow> ('a, 'p) SynthEvent \<Rightarrow> (world \<times> ('a, 'p) SynthEvent) outcome)
     \<Rightarrow> world \<Rightarrow> ('a, 'p) SynthEvent \<Rightarrow> (world \<times> ('a, 'p) SynthEvent) outcome"
where
  "restartCache ext recache w e =
     (if isSequenced (osc1 e) then
        bnd (if wtype (osc1 e) = KARPLUS_STRONG then initKarplusStrong ext w (osc1 e)
             else Returns (w, osc1 e))
          (\<lambda>(w5, f5).
             if EVENT_CACHING ext then
               (let e6 = resetCache ext (SynthEvent f5 (osc2 e)) in
                if autoCache (osc1 e6) \<and> \<not> hasParent (osc1 e6) then
                  (if \<not> caching (osc1 e6) then recache w5 e6
                   else Returns (w5, SynthEvent ((osc1 e6)\<lparr>cancel := True\<rparr>) (osc2 e6)))
                else Returns (w5, e6))
             else Returns (w5, SynthEvent f5 (osc2 e)))
      else Returns (w, e))"

text \<open>\<^verbatim>\<open>void SynthEvent::calculateBuffers()\<close> (lines 277 to 345).\<close>

definition calculateBuffersBody ::
  "('a, 'p) Externals
     \<Rightarrow> (world \<Rightarrow> ('a, 'p) SynthEvent \<Rightarrow> (world \<times> ('a, 'p) SynthEvent) outcome)
     \<Rightarrow> world \<Rightarrow> ('a, 'p) SynthEvent \<Rightarrow> (world \<times> ('a, 'p) SynthEvent) outcome"
where
  "calculateBuffersBody ext recache w e =
     (if locked (osc1 e) then Returns (w, SynthEvent ((osc1 e)\<lparr>updateAfterUnlock := True\<rparr>) (osc2 e))
      else
        (let (oldLength, f2) = calculateGeometry ext (osc1 e) in
         bnd (reallocateBuffer ext w oldLength f2)
           (\<lambda>(w4, f4). restartCache ext recache w4 (SynthEvent f4 (osc2 e)))))"

text \<open>
  \<^verbatim>\<open>void SynthEvent::cache( bool doCallback )\<close> (lines 399 to 410); \<open>doCache\<close> stands for
  \<^verbatim>\<open>doCache()\<close>, which is \<^verbatim>\<open>render( _buffer )\<close> (lines 867 to 870).
\<close>

definition cacheBody ::
  "('a, 'p) Externals
     \<Rightarrow> (world \<Rightarrow> addr option \<Rightarrow> ('a, 'p) SynthEvent \<Rightarrow> (world \<times> ('a, 'p) SynthEvent) outcome)
     \<Rightarrow> bool \<Rightarrow> world \<Rightarrow> ('a, 'p) SynthEvent \<Rightarrow> (world \<times> ('a, 'p) SynthEvent) outcome"
where
  "cacheBody ext doRender doCallback w e =
     (if buffer (osc1 e) = None then Returns (w, e)
      else
        (let e1 = SynthEvent ((osc1 e)\<lparr>caching := True\<rparr>) (osc2 e) in
         bnd (doRender w (buffer (osc1 e1)) e1)
           (\<lambda>(w1, e2). Returns (if doCallback then cacheQueue ext w1 else w1, e2))))"

text \<open>
  \<^verbatim>\<open>render\<close> calls \<^verbatim>\<open>calculateBuffers\<close>, which calls \<^verbatim>\<open>cache\<close>, which calls \<^verbatim>\<open>render\<close>; and
  \<^verbatim>\<open>render\<close> calls the \<^verbatim>\<open>render\<close> of the secondary oscillator.  Nothing bounds the first cycle,
  so the recursion is cut off by a bound on the depth of nested \<^verbatim>\<open>render\<close> calls: \<open>render n\<close>
  is \<open>NoFuel\<close> when the call would nest deeper than \<open>n\<close>.
\<close>

primrec render ::
  "nat \<Rightarrow> ('a, 'p) Externals \<Rightarrow> world \<Rightarrow> addr option \<Rightarrow> ('a, 'p) SynthEvent
     \<Rightarrow> (world \<times> ('a, 'p) SynthEvent) outcome"
where
  "render 0 ext w aOutputBuffer e = NoFuel"
| "render (Suc n) ext w aOutputBuffer e =
     renderBody ext (render n ext)
       (calculateBuffersBody ext (cacheBody ext (render n ext) False)) w aOutputBuffer e"

definition cache ::
  "nat \<Rightarrow> ('a, 'p) Externals \<Rightarrow> bool \<Rightarrow> world \<Rightarrow> ('a, 'p) SynthEvent
     \<Rightarrow> (world \<times> ('a, 'p) SynthEvent) outcome"
where
  "cache n ext doCallback w e = cacheBody ext (render n ext) doCallback w e"

definition calculateBuffers ::
  "nat \<Rightarrow> ('a, 'p) Externals \<Rightarrow> world \<Rightarrow> ('a, 'p) SynthEvent \<Rightarrow> (world \<times> ('a, 'p) SynthEvent) outcome"
where
  "calculateBuffers n ext w e = calculateBuffersBody ext (cache n ext False) w e"

definition doCache ::
  "nat \<Rightarrow> ('a, 'p) Externals \<Rightarrow> world \<Rightarrow> ('a, 'p) SynthEvent \<Rightarrow> (world \<times> ('a, 'p) SynthEvent) outcome"
where
  "doCache n ext w e = render n ext w (buffer (osc1 e)) e"

text \<open>\<^verbatim>\<open>void SynthEvent::unlock()\<close> (lines 267 to 275).\<close>

definition unlock ::
  "nat \<Rightarrow> ('a, 'p) Externals \<Rightarrow> world \<Rightarrow> ('a, 'p) SynthEvent \<Rightarrow> (world \<times> ('a, 'p) SynthEvent) outcome"
where
  "unlock n ext w e =
     (let e1 = SynthEvent ((osc1 e)\<lparr>locked := False\<rparr>) (osc2 e) in
      bnd (if updateAfterUnlock (osc1 e1) then calculateBuffers n ext w e1 else Returns (w, e1))
        (\<lambda>(w', e'). Returns (w', SynthEvent ((osc1 e')\<lparr>updateAfterUnlock := False\<rparr>) (osc2 e'))))"

text \<open>\<^verbatim>\<open>AudioBuffer* SynthEvent::getBuffer()\<close> (lines 177 to 186).\<close>

definition getBuffer ::
  "nat \<Rightarrow> ('a, 'p) Externals \<Rightarrow> world \<Rightarrow> ('a, 'p) SynthEvent
     \<Rightarrow> (world \<times> ('a, 'p) SynthEvent \<times> addr option) outcome"
where
  "getBuffer n ext w e =
     bnd (if EVENT_CACHING ext \<and> \<not> cachingCompleted (osc1 e) then doCache n ext w e
          else Returns (w, e))
       (\<lambda>(w', e'). Returns (w', e', buffer (osc1 e')))"

subsection \<open>The entry points \<^verbatim>\<open>synthesize\<close> and \<^verbatim>\<open>mixBuffer\<close>\<close>

text \<open>
  The inner loop of the fade (lines 385 to 386): sample \<open>i\<close> of every channel of the buffer
  object at \<open>b\<close> is multiplied by \<open>amp\<close>.
\<close>

function scaleChannels :: "addr \<Rightarrow> int \<Rightarrow> SAMPLE_TYPE \<Rightarrow> int \<Rightarrow> int \<Rightarrow> heap \<Rightarrow> heap outcome" where
  "scaleChannels b i amp nc c h =
     (if c < nc then
        (if \<not> validChannel (h b) c then Faults OutOfRange
         else if \<not> validIndex (h b) c i then Faults OutOfBounds
         else scaleChannels b i amp nc (c + 1) (h(b := setSample (h b) c i (sampleAt (h b) c i * amp))))
      else Returns h)"
  by pat_completeness auto
termination
  by (relation "measure (\<lambda>(b, i, amp, nc, c, h). nat (nc - c))") auto

text \<open>The loop of lines 383 to 389, \<^verbatim>\<open>for ( int i = aBufferLength - amt; i < aBufferLength; ++i )\<close>.\<close>

function fadeLoop :: "addr option \<Rightarrow> int \<Rightarrow> real \<Rightarrow> int \<Rightarrow> real \<Rightarrow> heap \<Rightarrow> heap outcome" where
  "fadeLoop b aBufferLength envIncr i amp h =
     (if i < aBufferLength then
        (case b of
           None \<Rightarrow> Faults NullPointer
         | Some a \<Rightarrow>
             (case scaleChannels a i amp (amountOfChannels (h a)) 0 h of
                Returns h' \<Rightarrow> fadeLoop b aBufferLength envIncr (i + 1) (amp - envIncr) h'
              | Faults x \<Rightarrow> Faults x
              | NoFuel \<Rightarrow> NoFuel))
      else Returns h)"
  by pat_completeness auto
termination
  by (relation "measure (\<lambda>(b, n, envIncr, i, amp, h). nat (n - i))") auto

text \<open>
  Lines 378 to 389: the fade-out.  \<^verbatim>\<open>aBufferLength / 4\<close> is a division of \<^verbatim>\<open>int\<close>s, so the
  \<^verbatim>\<open>ceil\<close> around it changes nothing.
\<close>

definition fadeOut :: "addr option \<Rightarrow> int \<Rightarrow> heap \<Rightarrow> heap outcome" where
  "fadeOut b aBufferLength h =
     (let amt = aBufferLength sdiv 4;
          envIncr = MAX_PHASE / real_of_int amt
      in fadeLoop b aBufferLength envIncr (aBufferLength - amt) MAX_PHASE h)"

text \<open>
  Lines 367 to 391 of \<^verbatim>\<open>synthesize\<close>: what follows the call of \<^verbatim>\<open>render\<close>.
\<close>

definition ringOut ::
  "int \<Rightarrow> world \<Rightarrow> ('a, 'p) SynthEvent \<Rightarrow> (world \<times> ('a, 'p) SynthEvent) outcome"
where
  "ringOut aBufferLength w e =
     (let f1 = (if queuedForDeletion (osc1 e) \<and> minLength (osc1 e) > 0
                then (osc1 e)\<lparr>minLength := minLength (osc1 e) - aBufferLength\<rparr> else osc1 e)
      in if minLength f1 \<le> 0 then
           (let e2 = setDeletable (queuedForDeletion f1) (SynthEvent (f1\<lparr>hasMinLength := True\<rparr>) (osc2 e))
            in if queuedForDeletion (osc1 e2)
               then bnd (fadeOut (buffer (osc1 e2)) aBufferLength (objs w))
                      (\<lambda>h. Returns (w\<lparr>objs := h\<rparr>, e2))
               else Returns (w, e2))
         else Returns (w, SynthEvent f1 (osc2 e)))"

text \<open>
  Lines 355 to 360 of \<^verbatim>\<open>synthesize\<close>: a length other than the native one gets the event a
  new buffer of that length.
\<close>

definition synthesizeBuffer ::
  "('a, 'p) Externals \<Rightarrow> world \<Rightarrow> ('a, 'p) SynthEvent \<Rightarrow> int
     \<Rightarrow> (world \<times> ('a, 'p) SynthEvent) outcome"
where
  "synthesizeBuffer ext w e aBufferLength =
     (if aBufferLength \<noteq> BUFFER_SIZE ext then
        bnd (allocate w (OUTPUT_CHANNELS ext) aBufferLength)
          (\<lambda>(w1, b). Returns (w1, SynthEvent ((destroyBuffer (osc1 e))\<lparr>buffer := Some b\<rparr>) (osc2 e)))
      else Returns (w, e))"

text \<open>\<^verbatim>\<open>AudioBuffer* SynthEvent::synthesize( int aBufferLength )\<close> (lines 353 to 393).\<close>

definition synthesize ::
  "nat \<Rightarrow> ('a, 'p) Externals \<Rightarrow> world \<Rightarrow> ('a, 'p) SynthEvent \<Rightarrow> int
     \<Rightarrow> (world \<times> ('a, 'p) SynthEvent \<times> addr option) outcome"
where
  "synthesize n ext w e aBufferLength =
     bnd (synthesizeBuffer ext w e aBufferLength)
       (\<lambda>(w1, e1).
          bnd (render n ext w1 (buffer (osc1 e1)) e1)
            (\<lambda>(w2, e2).
               bnd (ringOut aBufferLength w2 e2)
                 (\<lambda>(w3, e3). Returns (w3, e3, buffer (osc1 e3)))))"

text \<open>
  Lines 162 to 171 of \<^verbatim>\<open>mixBuffer\<close>: the event renders the slice of the window into its own
  buffer and merges it into the output buffer.
\<close>

definition mixSlice ::
  "nat \<Rightarrow> ('a, 'p) Externals \<Rightarrow> world \<Rightarrow> ('a, 'p) SynthEvent \<Rightarrow> addr \<Rightarrow> int
     \<Rightarrow> (world \<times> ('a, 'p) SynthEvent) outcome"
where
  "mixSlice n ext w e outputBuffer bufferPos =
     (let f = osc1 e;
          e1 = SynthEvent (f\<lparr>cacheWriteIndex :=
                 (if sampleStart f > bufferPos then 0 else bufferPos - sampleStart f)\<rparr>) (osc2 e);
          writeOffset = (if sampleStart f > bufferPos then sampleStart f - bufferPos else 0)
      in bnd (render n ext w (buffer (osc1 e1)) e1)
           (\<lambda>(w2, e2).
              bnd (mergeBuffers (objs w2) outputBuffer (buffer (osc1 e2)) 0 writeOffset MAX_PHASE)
                (\<lambda>(h, k).
                   if cacheWriteIndex (osc1 e2) \<ge> sampleLength (osc1 e2)
                   then calculateBuffers n ext (w2\<lparr>objs := h\<rparr>) e2
                   else Returns (w2\<lparr>objs := h\<rparr>, e2))))"

text \<open>\<^verbatim>\<open>void SynthEvent::mixBuffer( ... )\<close> (lines 144 to 175).\<close>

definition mixBuffer ::
  "nat \<Rightarrow> ('a, 'p) Externals \<Rightarrow> world \<Rightarrow> ('a, 'p) SynthEvent \<Rightarrow> addr \<Rightarrow> int \<Rightarrow> int \<Rightarrow> int \<Rightarrow> bool
     \<Rightarrow> int \<Rightarrow> bool \<Rightarrow> (world \<times> ('a, 'p) SynthEvent) outcome"
where
  "mixBuffer n ext w e outputBuffer bufferPos minBufferPosition maxBufferPosition loopStarted
       loopOffset useChannelRange =
     (if EVENT_CACHING ext then
        baseMixBuffer ext w e outputBuffer bufferPos minBufferPosition maxBufferPosition
          loopStarted loopOffset useChannelRange
      else
        (let bufferEndPos = bufferPos + BUFFER_SIZE ext in
         if (bufferPos \<ge> sampleStart (osc1 e) \<or> bufferEndPos > sampleStart (osc1 e)) \<and>
            bufferPos < sampleEnd (osc1 e)
         then mixSlice n ext w e outputBuffer bufferPos
         else Returns (w, e)))"

subsection \<open>Concrete instances for the examples\<close>

text \<open>
  An engine for the examples: a sample rate of 4, a native buffer of \<open>bs\<close> frames, one output
  channel, 2 samples per sequencer step; an envelope that leaves the buffer as it is, an
  arpeggiator that never steps, a base class whose \<^verbatim>\<open>resetCache\<close> rewinds the cache write index
  and clears the two caching flags, and no cancel request from outside.
\<close>

definition exampleEngine :: "bool \<Rightarrow> int \<Rightarrow> (unit, unit) Externals" where
  "exampleEngine evc bs =
     \<lparr>EVENT_CACHING = evc, BUFFER_SIZE = bs, OUTPUT_CHANNELS = 1, SAMPLE_RATE = 4,
      bytes_per_tick = 2, bytes_per_bar = 32,
      randomFloat = (\<lambda>k. 1 / 2),
      cancelRequested = (\<lambda>i. False),
      adsr_setBufferLength = (\<lambda>a n. a),
      adsr_apply = (\<lambda>a b i. (a, b)),
      arp_peek = (\<lambda>p. (False, p)),
      arp_getStep = (\<lambda>p. 0),
      arp_getPitchForStep = (\<lambda>p s f. f),
      baseResetCache = (\<lambda>f. f\<lparr>cacheWriteIndex := 0, caching := False, cachingCompleted := False\<rparr>),
      baseMixBuffer = (\<lambda>w e out bufferPos mn mx ls lo ucr. Returns (w, e)),
      cacheQueue = (\<lambda>w. w)\<rparr>"

text \<open>
  An oscillator for the examples: a sawtooth of frequency 1 (a quarter of the sample rate) at
  volume 1 and phase 0, with every flag clear.
\<close>

definition exampleOscillator :: "bool \<Rightarrow> bool \<Rightarrow> addr option \<Rightarrow> (unit, unit) Fields" where
  "exampleOscillator sequenced parent b =
     \<lparr>isSequenced = sequenced, hasParent = parent, position = 0, lengthSteps = 4,
      sampleStart = 0, sampleEnd = 8, sampleLength = 8, cacheWriteIndex = 0,
      minLength = 0, hasMinLength = sequenced, queuedForDeletion = False, deleteMe = False,
      locked = False, updateAfterUnlock = False, cancel = False, caching = False,
      cachingCompleted = False, autoCache = False, bulkCacheable = False,
      wtype = SAWTOOTH, frequency = 1, baseFrequency = 1, phase = 0, phaseIncr = 1 / 4,
      volume = 1, pwmValue = 0, ringBufferSize = 0, ringBuffer = None, buffer = b,
      adsr = (), arpeggiator = None\<rparr>"

text \<open>A store whose object 0 is \<open>b\<close> (every other address holds an empty buffer).\<close>

definition exampleWorld :: "AudioBuffer \<Rightarrow> world" where
  "exampleWorld b =
     \<lparr>objs = twoBuffers b (mkBuffer False []), nextFree = 1, randomCalls = 0\<rparr>"

text \<open>
  A store for the examples of mixing: object 0 is the output buffer \<open>t\<close>, object 1 the buffer
  \<open>s\<close> of the event, and both are allocated.
\<close>

definition exampleMixWorld :: "AudioBuffer \<Rightarrow> AudioBuffer \<Rightarrow> world" where
  "exampleMixWorld t s = \<lparr>objs = twoBuffers t s, nextFree = 2, randomCalls = 0\<rparr>"

text \<open>The samples of the buffer object at \<open>x\<close> after a call, or how the call ended.\<close>

definition samplesAfter ::
  "addr \<Rightarrow> (world \<times> ('a, 'p) SynthEvent) outcome \<Rightarrow> SAMPLE_TYPE list list outcome"
where
  "samplesAfter x res =
     (case res of Returns (w, e) \<Rightarrow> Returns (buffers (objs w x))
        | Faults err \<Rightarrow> Faults err | NoFuel \<Rightarrow> NoFuel)"

text \<open>The event after a call, seen through \<open>g\<close>, or how the call ended.\<close>

definition eventAfter ::
  "(('a, 'p) Fields \<Rightarrow> 'b) \<Rightarrow> (world \<times> ('a, 'p) SynthEvent) outcome \<Rightarrow> 'b outcome"
where
  "eventAfter g res =
     (case res of Returns (w, e) \<Rightarrow> Returns (g (osc1 e))
        | Faults err \<Rightarrow> Faults err | NoFuel \<Rightarrow> NoFuel)"

text \<open>One oscillator after a call, seen through \<open>g\<close>, or how the call ended.\<close>

definition oscillatorAfter ::
  "(('a, 'p) Fields \<Rightarrow> 'b) \<Rightarrow> (world \<times> ('a, 'p) Fields) outcome \<Rightarrow> 'b outcome"
where
  "oscillatorAfter g res =
     (case res of Returns (w, f) \<Rightarrow> Returns (g f)
        | Faults err \<Rightarrow> Faults err | NoFuel \<Rightarrow> NoFuel)"

definition ringCapacity :: "('a, 'p) Fields \<Rightarrow> int option" where
  "ringCapacity f = map_option capacity (ringBuffer f)"

text \<open>The samples of the buffer \<^verbatim>\<open>synthesize\<close> returns, or how the call ended.\<close>

definition synthesizedSamples ::
  "(world \<times> ('a, 'p) SynthEvent \<times> addr option) outcome \<Rightarrow> SAMPLE_TYPE list list outcome"
where
  "synthesizedSamples res =
     (case res of
        Returns (w, e, b) \<Rightarrow> (case b of None \<Rightarrow> Faults NullPointer
                             | Some x \<Rightarrow> Returns (buffers (objs w x)))
      | Faults err \<Rightarrow> Faults err | NoFuel \<Rightarrow> NoFuel)"

subsection \<open>Notions for the statements about the event\<close>

text \<open>
  \<open>keepsGeometry f f'\<close>: the oscillator state \<open>f'\<close> has the sample window of \<open>f\<close> and is
  sequenced exactly when \<open>f\<close> is.
\<close>

definition keepsGeometry :: "('a, 'p) Fields \<Rightarrow> ('a, 'p) Fields \<Rightarrow> bool" where
  "keepsGeometry f f' =
     (isSequenced f' = isSequenced f \<and> sampleStart f' = sampleStart f \<and>
      sampleEnd f' = sampleEnd f \<and> sampleLength f' = sampleLength f)"

text \<open>
  A history of an event after its construction: each step changes the event by some \<open>g\<close>
  (new position, new length, a lock, new instrument properties) and then calls
  \<^verbatim>\<open>calculateBuffers\<close>.
\<close>

fun recalculations ::
  "nat \<Rightarrow> ('a, 'p) Externals \<Rightarrow> (('a, 'p) SynthEvent \<Rightarrow> ('a, 'p) SynthEvent) list
     \<Rightarrow> world \<Rightarrow> ('a, 'p) SynthEvent \<Rightarrow> (world \<times> ('a, 'p) SynthEvent) outcome"
where
  "recalculations n ext [] w e = Returns (w, e)"
| "recalculations n ext (g # gs) w e =
     bnd (calculateBuffers n ext w (g e)) (\<lambda>(w', e'). recalculations n ext gs w' e')"

text \<open>
  \<open>geometric e\<close>: the event is sequenced and its sample window ends at its start plus its
  length.  \<open>preservesGeometric op\<close>: an operation that returns takes an event for which this
  holds to one for which it holds.
\<close>

definition geometric :: "('a, 'p) SynthEvent \<Rightarrow> bool" where
  "geometric e = (isSequenced (osc1 e) \<and>
                  sampleEnd (osc1 e) - sampleStart (osc1 e) = sampleLength (osc1 e))"

definition preservesGeometric ::
  "(world \<Rightarrow> ('a, 'p) SynthEvent \<Rightarrow> (world \<times> ('a, 'p) SynthEvent) outcome) \<Rightarrow> bool" where
  "preservesGeometric op = (\<forall>w e w' e'. op w e = Returns (w', e') \<longrightarrow> geometric e \<longrightarrow> geometric e')"

text \<open>
  What the statements about the geometry take from the base class's \<^verbatim>\<open>resetCache\<close>, which is
  not among the sources: it leaves the sample window and the flag \<^verbatim>\<open>isSequenced\<close> alone.
\<close>

definition resetKeepsGeometry :: "('a, 'p) Externals \<Rightarrow> bool" where
  "resetKeepsGeometry ext = (\<forall>f. keepsGeometry f (baseResetCache ext f))"

text \<open>
  \<open>framed b w w'\<close>: a call that works on the buffer object at \<open>b\<close> took the store \<open>w\<close> to
  \<open>w'\<close>.  It may have allocated objects, and every other object that existed is as it was.
\<close>

definition framed :: "addr \<Rightarrow> world \<Rightarrow> world \<Rightarrow> bool" where
  "framed b w w' =
     (nextFree w \<le> nextFree w' \<and> (\<forall>x. x \<noteq> b \<and> x < nextFree w \<longrightarrow> objs w' x = objs w x))"

text \<open>
  \<open>renewedRingBuffer ext w f n f'\<close>: the oscillator \<open>f'\<close> is \<open>f\<close> after its ring buffer was
  initialised with the size \<open>n\<close> in the store \<open>w\<close>.  The size is recorded; the ring buffer has
  capacity \<open>n\<close> if it was created (\<open>f\<close> had none, or \<open>f\<close> is sequenced and \<open>n\<close> is not the size
  before), else the capacity it had; and it holds the last of the \<open>n\<close> noise samples that were
  enqueued, as many as the capacity allows.
\<close>

definition renewedRingBuffer ::
  "('a, 'p) Externals \<Rightarrow> world \<Rightarrow> ('a, 'p) Fields \<Rightarrow> int \<Rightarrow> ('a, 'p) Fields \<Rightarrow> bool"
where
  "renewedRingBuffer ext w f n f' =
     (ringBufferSize f' = n \<and>
      (case ringBuffer f' of
         None \<Rightarrow> False
       | Some rb \<Rightarrow>
           capacity rb = (case ringBuffer f of
                            None \<Rightarrow> n
                          | Some old \<Rightarrow> if isSequenced f \<and> n \<noteq> ringBufferSize f then n
                                        else capacity old) \<and>
           queue rb = drop (nat n - nat (capacity rb))
                        (map (randomFloat ext) [randomCalls w..<randomCalls w + nat n])))"

text \<open>
  \<open>loopKeeps f f'\<close>: \<open>f'\<close> agrees with \<open>f\<close> on every member variable that the synthesis loop
  does not assign (it assigns the phase, the PWM counter, the frequencies, the ring buffer and
  its size, the arpeggiator's state and, through requests from outside, \<^verbatim>\<open>_cancel\<close>).
\<close>

definition loopKeeps :: "('a, 'p) Fields \<Rightarrow> ('a, 'p) Fields \<Rightarrow> bool" where
  "loopKeeps f f' =
     (isSequenced f' = isSequenced f \<and> hasParent f' = hasParent f \<and> position f' = position f \<and>
      lengthSteps f' = lengthSteps f \<and> sampleStart f' = sampleStart f \<and>
      sampleEnd f' = sampleEnd f \<and> sampleLength f' = sampleLength f \<and>
      cacheWriteIndex f' = cacheWriteIndex f \<and> minLength f' = minLength f \<and>
      hasMinLength f' = hasMinLength f \<and> queuedForDeletion f' = queuedForDeletion f \<and>
      deleteMe f' = deleteMe f \<and> locked f' = locked f \<and>
      updateAfterUnlock f' = updateAfterUnlock f \<and> caching f' = caching f \<and>
      cachingCompleted f' = cachingCompleted f \<and> autoCache f' = autoCache f \<and>
      bulkCacheable f' = bulkCacheable f \<and> wtype f' = wtype f \<and> volume f' = volume f \<and>
      buffer f' = buffer f \<and> adsr f' = adsr f \<and>
      (arpeggiator f' = None) = (arpeggiator f = None))"

text \<open>
  The samples the synthesis loop writes, in the order of the loop: the value
  \<^verbatim>\<open>amp * _volume\<close> of line 608 for each index the loop reaches.
\<close>

function renderedSamples ::
  "('a, 'p) Externals \<Rightarrow> addr \<Rightarrow> bool \<Rightarrow> int \<Rightarrow> int \<Rightarrow> SAMPLE_TYPE \<Rightarrow> world \<Rightarrow> ('a, 'p) SynthEvent
     \<Rightarrow> SAMPLE_TYPE list"
where
  "renderedSamples ext out hasOSC2 endOffset i amp w e =
     (if i < endOffset then
        (case renderSample ext out hasOSC2 i amp w e of
           Returns (amp', w', e') \<Rightarrow>
             amp' * volume (osc1 e') #
               (if cancel (osc1 e') then []
                else renderedSamples ext out hasOSC2 endOffset (i + 1) amp' w' e')
         | Faults x \<Rightarrow> []
         | NoFuel \<Rightarrow> [])
      else [])"
  by pat_completeness auto
termination
  by (relation "measure (\<lambda>(ext, out, hasOSC2, m, i, amp, w, e). nat (m - i))") auto

text \<open>
  The samples of a render pass: those of the loop that follows the prologue.
\<close>

definition synthesizedWindow ::
  "('a, 'p) Externals \<Rightarrow> addr \<Rightarrow> world \<Rightarrow> ('a, 'p) SynthEvent \<Rightarrow> SAMPLE_TYPE list" where
  "synthesizedWindow ext out w e =
     (case renderPrologue ext out w e of
        Returns w0 \<Rightarrow>
          renderedSamples ext out (osc2 e \<noteq> None) (renderEndOffset ext e (bufferSize (objs w out)))
            (renderStartOffset ext e) 0 w0 e
      | Faults x \<Rightarrow> []
      | NoFuel \<Rightarrow> [])"

text \<open>
  The oscillators of an event run when the plucked-string generator has its ring buffer, and,
  if an arpeggiator may change the frequency during the pass, no oscillator is a plucked
  string (whose ring buffer a frequency of 0 or below could not be given).
\<close>

definition oscillatorsRun :: "('a, 'p) SynthEvent \<Rightarrow> bool" where
  "oscillatorsRun e =
     (if arpeggiator (osc1 e) = None
      then wtype (osc1 e) = KARPLUS_STRONG \<longrightarrow> ringBuffer (osc1 e) \<noteq> None
      else wtype (osc1 e) \<noteq> KARPLUS_STRONG \<and>
           (case osc2 e of None \<Rightarrow> True | Some c \<Rightarrow> wtype c \<noteq> KARPLUS_STRONG))"

section \<open>Properties of the mixing loops\<close>

declare mergeSamples.simps [simp del]
declare mergeChannels.simps [simp del]

lemma setSample_shape [simp]:
  "loopeable (setSample b c i v) = loopeable b"
  "amountOfChannels (setSample b c i v) = amountOfChannels b"
  "bufferSize (setSample b c i v) = bufferSize b"
  "length (buffers (setSample b c i v)) = length (buffers b)"
  by (simp_all add: setSample_def)

lemma setSample_length [simp]:
  "length (buffers (setSample b c i v) ! k) = length (buffers b ! k)"
  by (cases "nat c < length (buffers b)") (simp_all add: setSample_def nth_list_update list_update_beyond)

lemma setSample_other_channel:
  "k \<noteq> nat c \<Longrightarrow> buffers (setSample b c i v) ! k = buffers b ! k"
  by (simp add: setSample_def)

lemma setSample_other_index:
  "j \<noteq> nat i \<Longrightarrow> buffers (setSample b c i v) ! k ! j = buffers b ! k ! j"
  by (cases "nat c < length (buffers b)") (simp_all add: setSample_def nth_list_update list_update_beyond)

lemma setSample_same:
  "validChannel b c \<Longrightarrow> validIndex b c i \<Longrightarrow> buffers (setSample b c i v) ! nat c ! nat i = v"
proof -
  assume "validChannel b c" "validIndex b c i"
  then have "nat c < length (buffers b)" "nat i < length (buffers b ! nat c)"
    by (auto simp: validChannel_def validIndex_def)
  then show ?thesis by (simp add: setSample_def)
qed

lemma validIndex_setSample [simp]:
  "validIndex (setSample b c i v) k j = validIndex b k j"
  by (simp add: validIndex_def)

lemma validChannel_setSample [simp]:
  "validChannel (setSample b c i v) k = validChannel b k"
  by (simp add: validChannel_def)

lemma mergeSamples_stop:
  "\<not> (i < m \<and> \<not> (sl \<le> r \<and> \<not> loopeable (h a))) \<Longrightarrow>
   mergeSamples this a c sl v m i r h w = Returns (h, w)"
  by (subst mergeSamples.simps) auto

lemma mergeSamples_fault:
  "i < m \<Longrightarrow> \<not> (sl \<le> r \<and> \<not> loopeable (h a)) \<Longrightarrow>
   \<not> validIndex (h a) c (if sl \<le> r then 0 else r) \<or> \<not> validIndex (h this) c i \<Longrightarrow>
   mergeSamples this a c sl v m i r h w = Faults OutOfBounds"
  by (subst mergeSamples.simps) (auto simp: Let_def)

lemma mergeSamples_step:
  "i < m \<Longrightarrow> \<not> (sl \<le> r \<and> \<not> loopeable (h a)) \<Longrightarrow>
   validIndex (h a) c (if sl \<le> r then 0 else r) \<Longrightarrow> validIndex (h this) c i \<Longrightarrow>
   mergeSamples this a c sl v m i r h w =
     mergeSamples this a c sl v m (i + 1) ((if sl \<le> r then 0 else r) + 1)
       (h(this := setSample (h this) c i
            (sampleAt (h this) c i + sampleAt (h a) c (if sl \<le> r then 0 else r) * v)))
       (w + 1)"
  by (subst mergeSamples.simps) (auto simp: Let_def)

lemma mergeSamples_Returns_induct [consumes 1, case_names stop step]:
  assumes run: "mergeSamples this a c sl v m i r h w = Returns (h', w')"
  assumes stop: "\<And>i r. \<not> (i < m \<and> \<not> (sl \<le> r \<and> \<not> loopeable (h' a))) \<Longrightarrow> P i r h' w'"
  assumes step: "\<And>i r h w. i < m \<Longrightarrow> \<not> (sl \<le> r \<and> \<not> loopeable (h a)) \<Longrightarrow>
        validIndex (h a) c (if sl \<le> r then 0 else r) \<Longrightarrow> validIndex (h this) c i \<Longrightarrow>
        mergeSamples this a c sl v m (i + 1) ((if sl \<le> r then 0 else r) + 1)
          (h(this := setSample (h this) c i
               (sampleAt (h this) c i + sampleAt (h a) c (if sl \<le> r then 0 else r) * v)))
          (w + 1) = Returns (h', w') \<Longrightarrow>
        P (i + 1) ((if sl \<le> r then 0 else r) + 1)
          (h(this := setSample (h this) c i
               (sampleAt (h this) c i + sampleAt (h a) c (if sl \<le> r then 0 else r) * v)))
          (w + 1) \<Longrightarrow>
        P i r h w"
  shows "P i r h w"
  using run
proof (induction "nat (m - i)" arbitrary: i r h w rule: less_induct)
  case less
  show ?case
  proof (cases "i < m \<and> \<not> (sl \<le> r \<and> \<not> loopeable (h a))")
    case False
    with less.prems have eqs: "h' = h" "w' = w" by (simp_all add: mergeSamples_stop)
    have "\<not> (i < m \<and> \<not> (sl \<le> r \<and> \<not> loopeable (h' a)))"
      using False eqs by simp
    then have "P i r h' w'" by (rule stop)
    then show ?thesis using eqs by simp
  next
    case True
    show ?thesis
    proof (cases "validIndex (h a) c (if sl \<le> r then 0 else r) \<and> validIndex (h this) c i")
      case False
      with True less.prems show ?thesis by (simp add: mergeSamples_fault)
    next
      case v: True
      with True less.prems have nxt: "mergeSamples this a c sl v m (i + 1) ((if sl \<le> r then 0 else r) + 1)
       (h(this := setSample (h this) c i
            (sampleAt (h this) c i + sampleAt (h a) c (if sl \<le> r then 0 else r) * v)))
       (w + 1) = Returns (h', w')" by (simp add: mergeSamples_step)
      from True have "nat (m - (i + 1)) < nat (m - i)" by simp
      from less.hyps[OF this nxt] True v nxt show ?thesis using step by blast
    qed
  qed
qed

lemma mergeSamples_others:
  assumes "mergeSamples this a c sl v m i r h w = Returns (h', w')" and "x \<noteq> this"
  shows "h' x = h x"
  using assms by (induction rule: mergeSamples_Returns_induct) auto


lemma sameShape_refl [simp]: "sameShape b b"
  by (simp add: sameShape_def)

lemma sameShape_trans: "sameShape b b' \<Longrightarrow> sameShape b' b'' \<Longrightarrow> sameShape b b''"
  by (simp add: sameShape_def)

lemma sameShape_setSample [simp]: "sameShape b (setSample b c i v)"
  by (simp add: sameShape_def)

lemma sameShape_wellFormed: "sameShape b b' \<Longrightarrow> wellFormed b \<Longrightarrow> wellFormed b'"
  by (simp add: sameShape_def wellFormed_def list_all_length)

lemma sameShape_valid:
  "sameShape b b' \<Longrightarrow> validChannel b' c = validChannel b c"
  "sameShape b b' \<Longrightarrow> validIndex b' c i = validIndex b c i"
  by (simp_all add: sameShape_def validChannel_def validIndex_def)

lemma mergeSamples_shape:
  assumes "mergeSamples this a c sl v m i r h w = Returns (h', w')"
  shows "sameShape (h x) (h' x)"
  using assms
proof (induction rule: mergeSamples_Returns_induct)
  case (stop i r)
  then show ?case by simp
next
  case (step i r h w)
  have "sameShape (h x) ((h(this := setSample (h this) c i
               (sampleAt (h this) c i + sampleAt (h a) c (if sl \<le> r then 0 else r) * v))) x)"
    by simp
  with step.IH show ?case by (rule sameShape_trans[rotated])
qed

lemma mergeSamples_other_channel:
  assumes "mergeSamples this a c sl v m i r h w = Returns (h', w')" and "k \<noteq> nat c"
  shows "buffers (h' x) ! k = buffers (h x) ! k"
  using assms by (induction rule: mergeSamples_Returns_induct) (auto simp: setSample_other_channel)

lemma mergeSamples_frame:
  assumes "mergeSamples this a c sl v m i r h w = Returns (h', w')"
  shows "w \<le> w' \<and> (\<forall>j. \<not> (i \<le> int j \<and> int j < i + (w' - w)) \<longrightarrow>
            buffers (h' x) ! k ! j = buffers (h x) ! k ! j)"
  using assms
proof (induction rule: mergeSamples_Returns_induct)
  case (stop i r)
  then show ?case by simp
next
  case (step i r h w)
  from step.hyps have "0 \<le> i" by (simp add: validIndex_def)
  with step.IH show ?case by (auto simp: setSample_other_index)
qed

lemma mergeSamples_total:
  assumes "0 \<le> i" "i < m \<longrightarrow> m \<le> int (length (buffers (h this) ! nat c))"
    and "sl = int (length (buffers (h a) ! nat c))" "0 \<le> r" "m - i \<le> sl"
  shows "\<exists>h'. mergeSamples this a c sl v m i r h w =
           Returns (h', w + samplesPerChannel (loopeable (h a)) sl r (m - i))"
  using assms
proof (induction "nat (m - i)" arbitrary: i r h w rule: less_induct)
  case less
  show ?case
  proof (cases "i < m \<and> \<not> (sl \<le> r \<and> \<not> loopeable (h a))")
    case False
    then show ?thesis by (auto simp: mergeSamples_stop samplesPerChannel_def)
  next
    case True
    let ?r = "if sl \<le> r then 0 else r"
    let ?h = "h(this := setSample (h this) c i (sampleAt (h this) c i + sampleAt (h a) c ?r * v))"
    from True less.prems have v: "validIndex (h a) c ?r" "validIndex (h this) c i"
      by (auto simp: validIndex_def)
    have lt: "nat (m - (i + 1)) < nat (m - i)" using True by simp
    have la: "loopeable (?h a) = loopeable (h a)" by simp
    have "\<exists>h'. mergeSamples this a c sl v m (i + 1) (?r + 1) ?h (w + 1) =
           Returns (h', (w + 1) + samplesPerChannel (loopeable (?h a)) sl (?r + 1) (m - (i + 1)))"
      using less.prems True by (intro less.hyps[OF lt]) auto
    moreover have "(w + 1) + samplesPerChannel (loopeable (h a)) sl (?r + 1) (m - (i + 1)) =
        w + samplesPerChannel (loopeable (h a)) sl r (m - i)"
      using True less.prems by (auto simp: samplesPerChannel_def)
    ultimately show ?thesis using True v by (simp add: mergeSamples_step[OF _ _ v] la del: fun_upd_apply)
  qed
qed

lemma mergeSamples_content:
  assumes "mergeSamples this a c sl v m i r h w = Returns (h', w')"
    and "a \<noteq> this" "validChannel (h this) c" "0 \<le> r" "r + (m - i) \<le> sl"
  shows "\<forall>j. i \<le> int j \<and> int j < m \<longrightarrow>
           buffers (h' this) ! nat c ! j =
           buffers (h this) ! nat c ! j + buffers (h a) ! nat c ! nat (r + (int j - i)) * v"
  using assms
proof (induction rule: mergeSamples_Returns_induct)
  case (stop i r)
  then show ?case by auto
next
  case (step i r h w)
  let ?h = "h(this := setSample (h this) c i (sampleAt (h this) c i + sampleAt (h a) c r * v))"
  from step.prems step.hyps have rr: "(if sl \<le> r then 0 else r) = r" by auto
  from step.hyps have i0: "0 \<le> i" by (simp add: validIndex_def)
  have tail: "mergeSamples this a c sl v m (i + 1) (r + 1) ?h (w + 1) = Returns (h', w')"
    using step.hyps(5) rr by simp
  have IH: "\<forall>j. i + 1 \<le> int j \<and> int j < m \<longrightarrow>
           buffers (h' this) ! nat c ! j =
           buffers (?h this) ! nat c ! j + buffers (?h a) ! nat c ! nat (r + 1 + (int j - (i + 1))) * v"
    using step.IH step.prems rr by simp
  show ?case
  proof (intro allI impI)
    fix j assume j: "i \<le> int j \<and> int j < m"
    show "buffers (h' this) ! nat c ! j =
           buffers (h this) ! nat c ! j + buffers (h a) ! nat c ! nat (r + (int j - i)) * v"
    proof (cases "int j = i")
      case True
      then have jn: "j = nat i" by simp
      have "buffers (h' this) ! nat c ! j = buffers (?h this) ! nat c ! j"
        using mergeSamples_frame[OF tail, of this "nat c"] True by simp
      also have "\<dots> = sampleAt (h this) c i + sampleAt (h a) c r * v"
        using step.prems step.hyps rr jn by (simp add: setSample_same)
      finally show ?thesis using True jn by (simp add: sampleAt_def)
    next
      case False
      with j have "i + 1 \<le> int j \<and> int j < m" by simp
      with IH have "buffers (h' this) ! nat c ! j =
           buffers (?h this) ! nat c ! j + buffers (?h a) ! nat c ! nat (r + 1 + (int j - (i + 1))) * v"
        by blast
      moreover have "j \<noteq> nat i" using False i0 by auto
      ultimately show ?thesis using step.prems by (simp add: setSample_other_index)
    qed
  qed
qed


lemma mergeChannels_stop:
  "\<not> (c < n \<and> c \<le> msc) \<Longrightarrow>
   mergeChannels this a ro wo v sl msc m n c h w = Returns (h, w, c)"
  by (subst mergeChannels.simps) auto

lemma mergeChannels_step:
  "c < n \<Longrightarrow> c \<le> msc \<Longrightarrow> validChannel (h a) c \<Longrightarrow> validChannel (h this) c \<Longrightarrow>
   mergeSamples this a c sl v m wo ro h w = Returns (h1, w1) \<Longrightarrow>
   mergeChannels this a ro wo v sl msc m n c h w =
     mergeChannels this a ro wo v sl msc m n (c + 1) h1 w1"
  by (subst mergeChannels.simps) auto

lemma wellFormed_channel:
  "wellFormed b \<Longrightarrow> 0 \<le> c \<Longrightarrow> c < amountOfChannels b \<Longrightarrow>
   validChannel b c \<and> int (length (buffers b ! nat c)) = bufferSize b"
  by (simp add: wellFormed_def validChannel_def list_all_length)

lemma mergeChannels_spec:
  assumes "wellFormed (h this)" "wellFormed (h a)"
    and "n = amountOfChannels (h this)" "msc = amountOfChannels (h a) - 1"
    and "sl = bufferSize (h a)" "lp = loopeable (h a)"
    and "0 \<le> c" "0 \<le> wo" "0 \<le> ro" "wo < m \<longrightarrow> m \<le> bufferSize (h this)" "m - wo \<le> sl"
    and "k = samplesPerChannel lp sl ro (m - wo)" "c' = max c (min n (msc + 1))"
  shows "\<exists>h'. mergeChannels this a ro wo v sl msc m n c h w = Returns (h', w + k * (c' - c), c') \<and>
           (\<forall>x. x \<noteq> this \<longrightarrow> h' x = h x) \<and>
           (\<forall>x. sameShape (h x) (h' x)) \<and>
           (\<forall>ch j. \<not> (c \<le> int ch \<and> int ch < c' \<and> wo \<le> int j \<and> int j < wo + k) \<longrightarrow>
                buffers (h' this) ! ch ! j = buffers (h this) ! ch ! j) \<and>
           (a \<noteq> this \<and> ro + (m - wo) \<le> sl \<longrightarrow>
              (\<forall>ch j. c \<le> int ch \<and> int ch < c' \<and> wo \<le> int j \<and> int j < m \<longrightarrow>
                 buffers (h' this) ! ch ! j =
                 buffers (h this) ! ch ! j + buffers (h a) ! ch ! nat (ro + (int j - wo)) * v))"
  using assms
proof (induction "nat (n - c)" arbitrary: c c' h w rule: less_induct)
  case less
  show ?case
  proof (cases "c < n \<and> c \<le> msc")
    case False
    then have "c' = c" using less.prems by auto
    with False show ?thesis by (simp add: mergeChannels_stop)
  next
    case True
    have vt: "validChannel (h this) c" "int (length (buffers (h this) ! nat c)) = bufferSize (h this)"
      using wellFormed_channel[of "h this" c] True less.prems by auto
    have va: "validChannel (h a) c" "int (length (buffers (h a) ! nat c)) = bufferSize (h a)"
      using wellFormed_channel[of "h a" c] True less.prems by auto
    obtain h1 where run1: "mergeSamples this a c sl v m wo ro h w = Returns (h1, w + k)"
      using mergeSamples_total[of wo m h this c sl a ro v w] less.prems vt va by auto
    have sh1: "\<And>x. sameShape (h x) (h1 x)" using mergeSamples_shape[OF run1] .
    have c'eq: "c' = max (c + 1) (min n (msc + 1))" using True less.prems by auto
    have lt: "nat (n - (c + 1)) < nat (n - c)" using True by simp
    have pre: "wellFormed (h1 this)" "wellFormed (h1 a)" "n = amountOfChannels (h1 this)"
      "msc = amountOfChannels (h1 a) - 1" "sl = bufferSize (h1 a)" "lp = loopeable (h1 a)"
      "wo < m \<longrightarrow> m \<le> bufferSize (h1 this)"
      using sh1[of this] sh1[of a] less.prems sameShape_wellFormed
      by (auto simp: sameShape_def)
    from less.hyps[OF lt pre(1-6) _ \<open>0 \<le> wo\<close> \<open>0 \<le> ro\<close> pre(7) \<open>m - wo \<le> sl\<close> \<open>k = _\<close> c'eq, of "w + k"]
    obtain h' where
      run2: "mergeChannels this a ro wo v sl msc m n (c + 1) h1 (w + k) =
               Returns (h', w + k + k * (c' - (c + 1)), c')"
      and oth2: "\<forall>x. x \<noteq> this \<longrightarrow> h' x = h1 x"
      and sh2: "\<forall>x. sameShape (h1 x) (h' x)"
      and fr2: "\<forall>ch j. \<not> (c + 1 \<le> int ch \<and> int ch < c' \<and> wo \<le> int j \<and> int j < wo + k) \<longrightarrow>
                buffers (h' this) ! ch ! j = buffers (h1 this) ! ch ! j"
      and ct2: "a \<noteq> this \<and> ro + (m - wo) \<le> sl \<longrightarrow>
              (\<forall>ch j. c + 1 \<le> int ch \<and> int ch < c' \<and> wo \<le> int j \<and> int j < m \<longrightarrow>
                 buffers (h' this) ! ch ! j =
                 buffers (h1 this) ! ch ! j + buffers (h1 a) ! ch ! nat (ro + (int j - wo)) * v)"
      using \<open>0 \<le> c\<close> by auto
    have sum: "w + k + k * (c' - (c + 1)) = w + k * (c' - c)" by (simp add: algebra_simps)
    have run: "mergeChannels this a ro wo v sl msc m n c h w = Returns (h', w + k * (c' - c), c')"
      using mergeChannels_step[OF _ _ va(1) vt(1) run1] True run2 sum by simp
    have oth: "\<forall>x. x \<noteq> this \<longrightarrow> h' x = h x"
      using oth2 mergeSamples_others[OF run1] by simp
    have sh: "\<forall>x. sameShape (h x) (h' x)"
      using sh1 sh2 sameShape_trans by blast
    have fr: "\<forall>ch j. \<not> (c \<le> int ch \<and> int ch < c' \<and> wo \<le> int j \<and> int j < wo + k) \<longrightarrow>
                buffers (h' this) ! ch ! j = buffers (h this) ! ch ! j"
    proof (intro allI impI)
      fix ch j assume out: "\<not> (c \<le> int ch \<and> int ch < c' \<and> wo \<le> int j \<and> int j < wo + k)"
      have c'gt: "c < c'" using c'eq by simp
      show "buffers (h' this) ! ch ! j = buffers (h this) ! ch ! j"
      proof (cases "ch = nat c")
        case True
        then have "buffers (h' this) ! ch ! j = buffers (h1 this) ! ch ! j"
          using fr2 \<open>0 \<le> c\<close> by auto
        moreover have "\<not> (wo \<le> int j \<and> int j < wo + k)"
          using out True c'gt \<open>0 \<le> c\<close> by auto
        then have "buffers (h1 this) ! ch ! j = buffers (h this) ! ch ! j"
          using mergeSamples_frame[OF run1, of this ch] by auto
        ultimately show ?thesis by simp
      next
        case False
        then have "buffers (h1 this) ! ch = buffers (h this) ! ch"
          using mergeSamples_other_channel[OF run1] by simp
        moreover have "buffers (h' this) ! ch ! j = buffers (h1 this) ! ch ! j"
          using fr2 out False \<open>0 \<le> c\<close> by auto
        ultimately show ?thesis by simp
      qed
    qed
    have ct: "a \<noteq> this \<and> ro + (m - wo) \<le> sl \<longrightarrow>
              (\<forall>ch j. c \<le> int ch \<and> int ch < c' \<and> wo \<le> int j \<and> int j < m \<longrightarrow>
                 buffers (h' this) ! ch ! j =
                 buffers (h this) ! ch ! j + buffers (h a) ! ch ! nat (ro + (int j - wo)) * v)"
    proof (intro impI allI)
      fix ch j
      assume na: "a \<noteq> this \<and> ro + (m - wo) \<le> sl"
        and rg: "c \<le> int ch \<and> int ch < c' \<and> wo \<le> int j \<and> int j < m"
      have a1: "h1 a = h a" using na mergeSamples_others[OF run1] by simp
      show "buffers (h' this) ! ch ! j =
                 buffers (h this) ! ch ! j + buffers (h a) ! ch ! nat (ro + (int j - wo)) * v"
      proof (cases "ch = nat c")
        case True
        then have "buffers (h' this) ! ch ! j = buffers (h1 this) ! ch ! j"
          using fr2 \<open>0 \<le> c\<close> by auto
        moreover have "buffers (h1 this) ! nat c ! j =
           buffers (h this) ! nat c ! j + buffers (h a) ! nat c ! nat (ro + (int j - wo)) * v"
          using mergeSamples_content[OF run1 _ vt(1) \<open>0 \<le> ro\<close>] na rg by auto
        ultimately show ?thesis using True by simp
      next
        case False
        then have "c + 1 \<le> int ch" using rg by auto
        then have "buffers (h' this) ! ch ! j =
                 buffers (h1 this) ! ch ! j + buffers (h1 a) ! ch ! nat (ro + (int j - wo)) * v"
          using ct2 na rg by auto
        moreover have "buffers (h1 this) ! ch = buffers (h this) ! ch"
          using mergeSamples_other_channel[OF run1] False by simp
        ultimately show ?thesis using a1 by simp
      qed
    qed
    from run oth sh fr ct show ?thesis by blast
  qed
qed


lemma sdiv_mult_self:
  "0 \<le> k \<Longrightarrow> 0 < c \<Longrightarrow> (k * c) sdiv c = (k::int)"
  by (simp add: signed_divide_int_def sgn_mult abs_mult zero_le_mult_iff sgn_if)

lemma samplesPerChannel_nonneg: "0 \<le> samplesPerChannel lp sl r len"
  by (simp add: samplesPerChannel_def)

lemma mergeBuffers_spec:
  assumes wf: "wellFormed (h this)" "wellFormed (h a)"
    and rg: "0 \<le> wo" "wo < bufferSize (h this)" "0 \<le> ro"
    and ch: "1 \<le> amountOfChannels (h this)" "1 \<le> amountOfChannels (h a)"
    and k: "k = samplesPerChannel (loopeable (h a)) (bufferSize (h a)) ro
                 (min (bufferSize (h a)) (bufferSize (h this) - wo))"
    and c': "c' = min (amountOfChannels (h this)) (amountOfChannels (h a))"
  shows "\<exists>h'. mergeBuffers h this (Some a) ro wo v = Returns (h', k) \<and>
           (\<forall>x. x \<noteq> this \<longrightarrow> h' x = h x) \<and>
           (\<forall>x. sameShape (h x) (h' x)) \<and>
           (\<forall>ch j. \<not> (int ch < c' \<and> wo \<le> int j \<and> int j < wo + k) \<longrightarrow>
                buffers (h' this) ! ch ! j = buffers (h this) ! ch ! j) \<and>
           (a \<noteq> this \<and> ro = 0 \<longrightarrow>
              (\<forall>ch j. int ch < c' \<and> wo \<le> int j \<and> int j < wo + k \<longrightarrow>
                 buffers (h' this) ! ch ! j =
                 buffers (h this) ! ch ! j + buffers (h a) ! ch ! nat (int j - wo) * v))"
proof -
  let ?sl = "bufferSize (h a)"
  let ?wl = "if wo + ?sl > bufferSize (h this) then bufferSize (h this) - wo else ?sl"
  let ?m = "wo + ?wl"
  have wl: "?wl = min ?sl (bufferSize (h this) - wo)" by auto
  have sl0: "0 \<le> ?sl" using wf(2) ch(2) wellFormed_channel[of "h a" 0] by auto
  have c'max: "c' = max 0 (min (amountOfChannels (h this)) (amountOfChannels (h a) - 1 + 1))"
    using c' ch by simp
  have kk: "k = samplesPerChannel (loopeable (h a)) ?sl ro (?m - wo)"
    using k wl by simp
  have p1: "wo < ?m \<longrightarrow> ?m \<le> bufferSize (h this)" by auto
  have p2: "?m - wo \<le> ?sl" by auto
  have z: "(0::int) \<le> 0" by simp
  from mergeChannels_spec[OF wf refl refl refl refl z rg(1) rg(3) p1 p2 kk c'max, of v 0]
  obtain h' where
    run0: "mergeChannels this a ro wo v ?sl (amountOfChannels (h a) - 1) ?m
            (amountOfChannels (h this)) 0 h 0 = Returns (h', 0 + k * (c' - 0), c')"
    and oth: "\<forall>x. x \<noteq> this \<longrightarrow> h' x = h x"
    and sh: "\<forall>x. sameShape (h x) (h' x)"
    and fr0: "\<forall>ch j. \<not> (0 \<le> int ch \<and> int ch < c' \<and> wo \<le> int j \<and> int j < wo + k) \<longrightarrow>
                buffers (h' this) ! ch ! j = buffers (h this) ! ch ! j"
    and ct: "a \<noteq> this \<and> ro + (?m - wo) \<le> ?sl \<longrightarrow>
              (\<forall>ch j. 0 \<le> int ch \<and> int ch < c' \<and> wo \<le> int j \<and> int j < ?m \<longrightarrow>
                 buffers (h' this) ! ch ! j =
                 buffers (h this) ! ch ! j + buffers (h a) ! ch ! nat (ro + (int j - wo)) * v)"
    by blast
  have run: "mergeChannels this a ro wo v ?sl (amountOfChannels (h a) - 1) ?m
            (amountOfChannels (h this)) 0 h 0 = Returns (h', k * c', c')"
    using run0 by simp
  have fr: "\<forall>ch j. \<not> (int ch < c' \<and> wo \<le> int j \<and> int j < wo + k) \<longrightarrow>
                buffers (h' this) ! ch ! j = buffers (h this) ! ch ! j"
    using fr0 by simp
  have c'pos: "0 < c'" using c' ch by simp
  have k0: "0 \<le> k" using k by (simp add: samplesPerChannel_nonneg)
  have res: "mergeBuffers h this (Some a) ro wo v = Returns (h', k)"
    using run rg c'pos sdiv_mult_self[OF k0 c'pos]
    by (simp add: mergeBuffers_def Let_def)
  have kle: "wo + k \<le> ?m" using kk rg sl0 by (auto simp: samplesPerChannel_def)
  have ct': "a \<noteq> this \<and> ro = 0 \<longrightarrow>
              (\<forall>ch j. int ch < c' \<and> wo \<le> int j \<and> int j < wo + k \<longrightarrow>
                 buffers (h' this) ! ch ! j =
                 buffers (h this) ! ch ! j + buffers (h a) ! ch ! nat (int j - wo) * v)"
  proof (intro impI allI)
    fix ch j assume A: "a \<noteq> this \<and> ro = 0" and B: "int ch < c' \<and> wo \<le> int j \<and> int j < wo + k"
    from A have "a \<noteq> this \<and> ro + (?m - wo) \<le> ?sl" by auto
    moreover from B kle have "0 \<le> int ch \<and> int ch < c' \<and> wo \<le> int j \<and> int j < ?m" by auto
    ultimately have "buffers (h' this) ! ch ! j =
                 buffers (h this) ! ch ! j + buffers (h a) ! ch ! nat (ro + (int j - wo)) * v"
      using ct by blast
    with A show "buffers (h' this) ! ch ! j =
                 buffers (h this) ! ch ! j + buffers (h a) ! ch ! nat (int j - wo) * v" by simp
  qed
  from res oth sh fr ct' show ?thesis by auto
qed


section \<open>Properties of the event model\<close>

lemma bnd_Returns_iff:
  "bnd m f = Returns y \<longleftrightarrow> (\<exists>x. m = Returns x \<and> f x = Returns y)"
  by (cases m) auto

lemma bnd_Returns [simp]: "bnd (Returns x) f = f x"
  by simp

lemmas eval_defs =
  samplesAfter_def eventAfter_def exampleEngine_def exampleOscillator_def exampleWorld_def
  twoBuffers_def mkBuffer_def
  renderBody_def renderSynthesis_def renderPrologue_def renderOSC2_def renderEnvelope_def
  renderEpilogue_def renderStartOffset_def renderEndOffset_def windowClipped_def maxSampleIndex_def
  renderLoop.simps writeChannels.simps
  renderSample_def waveform_def advancePhase_def stepArpeggiator_def
  calculateBuffersBody_def calculateGeometry_def reallocateBuffer_def restartCache_def
  cacheBody_def resetCache_def destroyBuffer_def allocate_def
  newAudioBuffer_def silenceBuffers_def setFrequency_def setFrequencyOsc_def initKarplusStrong_def
  mergeBuffers_def mergeChannels.simps mergeSamples.simps
  validChannel_def validIndex_def sampleAt_def setSample_def
  c_int_def MAX_PHASE_def signed_divide_int_def Let_def

lemma renderEpilogue_cancel:
  "renderEpilogue ext recalculate maxIndex i w e = Returns (w', e') \<Longrightarrow> \<not> cancel (osc1 e')"
  by (auto simp: renderEpilogue_def bnd_Returns_iff)

lemma initKarplusStrong_Returns:
  assumes "initKarplusStrong ext w f = Returns (w', f')"
  shows "\<exists>n rb. f' = f\<lparr>ringBufferSize := n, ringBuffer := Some rb\<rparr> \<and>
           w' = w\<lparr>randomCalls := randomCalls w + nat n\<rparr>"
proof (cases "intOfFloat (floatDiv (SAMPLE_RATE ext) (frequency f))")
  case (Returns n)
  let ?kept = "if isSequenced f \<and> (ringBuffer f \<noteq> None \<and> n \<noteq> ringBufferSize f) then None
               else ringBuffer f"
  show ?thesis
  proof (cases "case ?kept of None \<Rightarrow> newRingBuffer n | Some rb \<Rightarrow> Returns (flush rb)")
    case (Returns rb)
    with assms \<open>intOfFloat (floatDiv (SAMPLE_RATE ext) (frequency f)) = Returns n\<close>
    have "f' = f\<lparr>ringBufferSize := n,
                  ringBuffer := Some (fillNoise (randomFloat ext) (nat n) (randomCalls w) rb)\<rparr>"
      and "w' = w\<lparr>randomCalls := randomCalls w + nat n\<rparr>"
      by (simp_all add: initKarplusStrong_def Let_def)
    then show ?thesis by blast
  next
    case (Faults x)
    with assms \<open>intOfFloat (floatDiv (SAMPLE_RATE ext) (frequency f)) = Returns n\<close>
    show ?thesis by (simp add: initKarplusStrong_def Let_def)
  next
    case NoFuel
    with assms \<open>intOfFloat (floatDiv (SAMPLE_RATE ext) (frequency f)) = Returns n\<close>
    show ?thesis by (simp add: initKarplusStrong_def Let_def)
  qed
next
  case (Faults x)
  with assms show ?thesis by (simp add: initKarplusStrong_def)
next
  case NoFuel
  with assms show ?thesis by (simp add: initKarplusStrong_def)
qed


subsection \<open>The ring buffer after its noise refill\<close>

lemma enqueue_capacity [simp]: "capacity (enqueue rb v) = capacity rb"
  by (simp add: enqueue_def Let_def)

lemma fillNoise_capacity [simp]: "capacity (fillNoise rnd n k rb) = capacity rb"
  by (induction n arbitrary: k rb) simp_all

lemma enqueue_queue:
  "length (queue rb) \<le> nat (capacity rb) \<Longrightarrow> 0 \<le> capacity rb \<Longrightarrow>
   queue (enqueue rb v) =
     drop (length (queue rb @ [v]) - nat (capacity rb)) (queue rb @ [v])"
  by (cases "queue rb") (auto simp: enqueue_def Let_def drop_Cons' split: if_splits)

lemma drop_drop_append:
  assumes "d \<le> length xs"
  shows "drop m (drop d xs @ ys) = drop (m + d) (xs @ ys)"
proof -
  have "drop (m + d) (xs @ ys) = drop m (drop d (xs @ ys))" by (simp only: drop_drop)
  also have "drop d (xs @ ys) = drop d xs @ ys" using assms by simp
  finally show ?thesis by simp
qed

lemma fillNoise_queue:
  "length (queue rb) \<le> nat (capacity rb) \<Longrightarrow> 0 \<le> capacity rb \<Longrightarrow>
   queue (fillNoise rnd n k rb) =
     drop (length (queue rb) + n - nat (capacity rb)) (queue rb @ map rnd [k..<k + n])"
proof (induction n arbitrary: k rb)
  case 0
  then show ?case by simp
next
  case (Suc n)
  let ?rb = "enqueue rb (rnd k)"
  let ?q0 = "queue rb @ [rnd k]"
  let ?c = "nat (capacity rb)"
  let ?d0 = "length ?q0 - ?c"
  let ?R = "map rnd [Suc k..<Suc k + n]"
  have q: "queue ?rb = drop ?d0 ?q0"
    using Suc.prems by (rule enqueue_queue)
  then have len: "length (queue ?rb) \<le> nat (capacity ?rb)" by simp
  have cap: "0 \<le> capacity ?rb" using Suc.prems by simp
  have "map rnd [k..<k + Suc n] = rnd k # ?R" by (simp add: upt_conv_Cons del: upt_Suc)
  then have app: "?q0 @ ?R = queue rb @ map rnd [k..<k + Suc n]" by simp
  have d0: "?d0 \<le> length ?q0" by simp
  have idx: "(length (drop ?d0 ?q0) + n - ?c) + ?d0 = length (queue rb) + Suc n - ?c"
  proof (cases "length (queue rb) < ?c")
    case True
    then have "?d0 = 0" by simp
    then show ?thesis by simp
  next
    case False
    with Suc.prems(1) have e: "length (queue rb) = ?c" by simp
    then have "?d0 = 1" by simp
    then show ?thesis using e by simp
  qed
  have "queue (fillNoise rnd (Suc n) k rb) = queue (fillNoise rnd n (Suc k) ?rb)" by simp
  also have "\<dots> = drop (length (queue ?rb) + n - nat (capacity ?rb)) (queue ?rb @ ?R)"
    using Suc.IH[OF len cap] .
  also have "\<dots> = drop (length (drop ?d0 ?q0) + n - ?c) (drop ?d0 ?q0 @ ?R)"
    by (simp only: q enqueue_capacity)
  also have "\<dots> = drop ((length (drop ?d0 ?q0) + n - ?c) + ?d0) (?q0 @ ?R)"
    using d0 by (rule drop_drop_append)
  also have "\<dots> = drop (length (queue rb) + Suc n - ?c) (queue rb @ map rnd [k..<k + Suc n])"
    by (simp only: idx app)
  finally show ?case .
qed

subsection \<open>Single precision at the values of the examples\<close>

declare binade.simps [simp del]

lemma binade_examples:
  "binade 1 (- 126) = 0" "binade 2 (- 126) = 1" "binade 4 (- 126) = 2"
  "binade 44100 (- 126) = 15" "binade (2205 / 13) (- 126) = 7"
  "binade (1 / 10) (- 126) = - 4" "binade (13421773 / 134217728) (- 126) = - 4"
  "binade (536870912 / 13421773) (- 126) = 5"
  by (simp_all add: binade.simps)

lemmas float_defs = intOfFloat_def floatDiv_def toFloat_def nearestFloat_def floatQuantum_def
  roundHalfEven_def binade_examples c_int_def Let_def

text \<open>
  The quotient is rounded before it is truncated: 0.1 in single precision is
  \<open>13421773 / 2 ^ 27\<close>, a little more than a tenth, and 4 divided by it is a little less than
  40, but the nearest single precision value is 40.
\<close>

lemma intOfFloat_rounded_quotient:
  "toFloat (1 / 10) = Some (13421773 / 134217728) \<and>
   c_int (4 / (13421773 / 134217728)) = 39 \<and>
   intOfFloat (floatDiv 4 (13421773 / 134217728)) = Returns 40"
  by (simp add: float_defs)

subsection \<open>The ring buffer after \<^verbatim>\<open>initKarplusStrong\<close>\<close>

lemma initKarplusStrong_renews:
  assumes "intOfFloat (floatDiv (SAMPLE_RATE ext) (frequency f)) = Returns n" and "0 \<le> n"
    and "case ringBuffer f of None \<Rightarrow> True | Some old \<Rightarrow> 0 \<le> capacity old"
  shows "\<exists>w' f'. initKarplusStrong ext w f = Returns (w', f') \<and> frequency f' = frequency f \<and>
           renewedRingBuffer ext w f n f'"
proof (cases "ringBuffer f")
  case None
  let ?rb = "fillNoise (randomFloat ext) (nat n) (randomCalls w) \<lparr>capacity = n, queue = []\<rparr>"
  let ?f = "f\<lparr>ringBufferSize := n, ringBuffer := Some ?rb\<rparr>"
  have "initKarplusStrong ext w f = Returns (w\<lparr>randomCalls := randomCalls w + nat n\<rparr>, ?f)"
    using None assms by (simp add: initKarplusStrong_def Let_def newRingBuffer_def)
  moreover have "renewedRingBuffer ext w f n ?f"
    using None assms by (simp add: renewedRingBuffer_def fillNoise_queue)
  moreover have "frequency ?f = frequency f" by simp
  ultimately show ?thesis by blast
next
  case (Some old)
  let ?k = "if isSequenced f \<and> n \<noteq> ringBufferSize f then \<lparr>capacity = n, queue = []\<rparr>
            else flush old"
  let ?rb = "fillNoise (randomFloat ext) (nat n) (randomCalls w) ?k"
  let ?f = "f\<lparr>ringBufferSize := n, ringBuffer := Some ?rb\<rparr>"
  have "initKarplusStrong ext w f = Returns (w\<lparr>randomCalls := randomCalls w + nat n\<rparr>, ?f)"
    using Some assms by (simp add: initKarplusStrong_def Let_def newRingBuffer_def)
  moreover have "renewedRingBuffer ext w f n ?f"
    using Some assms by (simp add: renewedRingBuffer_def fillNoise_queue flush_def)
  moreover have "frequency ?f = frequency f" by simp
  ultimately show ?thesis by blast
qed

lemma setFrequencyOsc_renews:
  assumes "wtype f = KARPLUS_STRONG"
    and "intOfFloat (floatDiv (SAMPLE_RATE ext) fr) = Returns n" and "0 \<le> n"
    and "case ringBuffer f of None \<Rightarrow> True | Some old \<Rightarrow> 0 \<le> capacity old"
  shows "\<exists>w' f'. setFrequencyOsc ext fr st w f = Returns (w', f') \<and> frequency f' = fr \<and>
           renewedRingBuffer ext w f n f'"
proof -
  let ?f1 = "f\<lparr>frequency := fr, phaseIncr := fr / real_of_int (SAMPLE_RATE ext)\<rparr>"
  let ?f2 = "if st then ?f1\<lparr>baseFrequency := fr\<rparr> else ?f1"
  have c: "setFrequencyOsc ext fr st w f = initKarplusStrong ext w ?f2"
    using assms(1) by (simp add: setFrequencyOsc_def Let_def)
  have q: "intOfFloat (floatDiv (SAMPLE_RATE ext) (frequency ?f2)) = Returns n"
    using assms(2) by simp
  have o: "case ringBuffer ?f2 of None \<Rightarrow> True | Some old \<Rightarrow> 0 \<le> capacity old"
    using assms(4) by simp
  from initKarplusStrong_renews[OF q assms(3) o, of w]
  obtain w' f' where r: "initKarplusStrong ext w ?f2 = Returns (w', f')"
    and fq: "frequency f' = frequency ?f2" and rn: "renewedRingBuffer ext w ?f2 n f'"
    by blast
  have "renewedRingBuffer ext w f n f'"
    using rn
    by (cases st; cases "ringBuffer f"; cases "ringBuffer f'"; simp add: renewedRingBuffer_def)
  moreover have "frequency f' = fr" using fq by simp
  ultimately show ?thesis using c r by simp
qed


subsection \<open>The fade-out loops\<close>

declare scaleChannels.simps [simp del]
declare fadeLoop.simps [simp del]

lemma scaleChannels_spec:
  assumes "wellFormed (h b)" "0 \<le> c" "nc = amountOfChannels (h b)" "0 \<le> i" "i < bufferSize (h b)"
  shows "\<exists>h'. scaleChannels b i amp nc c h = Returns h' \<and>
           (\<forall>x. x \<noteq> b \<longrightarrow> h' x = h x) \<and> sameShape (h b) (h' b) \<and>
           (\<forall>ch j. buffers (h' b) ! ch ! j =
               (if int ch < nc \<and> c \<le> int ch \<and> int j = i then buffers (h b) ! ch ! j * amp
                else buffers (h b) ! ch ! j))"
  using assms
proof (induction "nat (nc - c)" arbitrary: c h rule: less_induct)
  case less
  show ?case
  proof (cases "c < nc")
    case False
    then show ?thesis by (subst scaleChannels.simps) auto
  next
    case True
    let ?h = "h(b := setSample (h b) c i (sampleAt (h b) c i * amp))"
    have v: "validChannel (h b) c" "int (length (buffers (h b) ! nat c)) = bufferSize (h b)"
      using wellFormed_channel[of "h b" c] True less.prems by auto
    then have vi: "validIndex (h b) c i" using less.prems by (simp add: validIndex_def)
    have step: "scaleChannels b i amp nc c h = scaleChannels b i amp nc (c + 1) ?h"
      using True v vi by (subst scaleChannels.simps) simp
    have lt: "nat (nc - (c + 1)) < nat (nc - c)" using True by simp
    have wf: "wellFormed (?h b)" using less.prems(1) sameShape_wellFormed[OF sameShape_setSample] by simp
    from less.hyps[of "c + 1" ?h, OF lt wf] less.prems
    obtain h' where r: "scaleChannels b i amp nc (c + 1) ?h = Returns h'"
      and o: "\<forall>x. x \<noteq> b \<longrightarrow> h' x = ?h x" and s: "sameShape (?h b) (h' b)"
      and f: "\<forall>ch j. buffers (h' b) ! ch ! j =
               (if int ch < nc \<and> c + 1 \<le> int ch \<and> int j = i then buffers (?h b) ! ch ! j * amp
                else buffers (?h b) ! ch ! j)"
      by auto
    have s': "sameShape (h b) (h' b)" using s sameShape_trans[OF sameShape_setSample] by simp
    have f': "\<forall>ch j. buffers (h' b) ! ch ! j =
               (if int ch < nc \<and> c \<le> int ch \<and> int j = i then buffers (h b) ! ch ! j * amp
                else buffers (h b) ! ch ! j)"
    proof (intro allI)
      fix ch j
      show "buffers (h' b) ! ch ! j =
               (if int ch < nc \<and> c \<le> int ch \<and> int j = i then buffers (h b) ! ch ! j * amp
                else buffers (h b) ! ch ! j)"
      proof (cases "ch = nat c \<and> j = nat i")
        case True
        then have "buffers (h' b) ! ch ! j = buffers (?h b) ! nat c ! nat i"
          using f less.prems by auto
        also have "\<dots> = sampleAt (h b) c i * amp" using v vi by (simp add: setSample_same)
        finally show ?thesis using True \<open>c < nc\<close> less.prems by (simp add: sampleAt_def)
      next
        case False
        then have "buffers (?h b) ! ch ! j = buffers (h b) ! ch ! j"
          by (auto simp: setSample_other_channel setSample_other_index)
        moreover have "(int ch < nc \<and> c + 1 \<le> int ch \<and> int j = i) = (int ch < nc \<and> c \<le> int ch \<and> int j = i)"
          using False less.prems by auto
        ultimately show ?thesis using f by simp
      qed
    qed
    from r o s' f' step show ?thesis by auto
  qed
qed


lemma fadeLoop_spec:
  assumes "wellFormed (h a)" "0 \<le> i" "n \<le> bufferSize (h a)"
  shows "\<exists>h'. fadeLoop (Some a) n incr i amp h = Returns h' \<and>
           (\<forall>x. x \<noteq> a \<longrightarrow> h' x = h x) \<and> sameShape (h a) (h' a) \<and>
           (\<forall>ch j. buffers (h' a) ! ch ! j =
               (if int ch < amountOfChannels (h a) \<and> i \<le> int j \<and> int j < n
                then buffers (h a) ! ch ! j * (amp - real_of_int (int j - i) * incr)
                else buffers (h a) ! ch ! j))"
  using assms
proof (induction "nat (n - i)" arbitrary: i amp h rule: less_induct)
  case less
  show ?case
  proof (cases "i < n")
    case False
    then show ?thesis by (subst fadeLoop.simps) auto
  next
    case True
    have z: "(0::int) \<le> 0" by simp
    from scaleChannels_spec[where h = h and b = a and c = 0 and nc = "amountOfChannels (h a)"
        and i = i and amp = amp] True less.prems
    obtain h1 where r1: "scaleChannels a i amp (amountOfChannels (h a)) 0 h = Returns h1"
      and o1: "\<forall>x. x \<noteq> a \<longrightarrow> h1 x = h x" and s1: "sameShape (h a) (h1 a)"
      and f1: "\<forall>ch j. buffers (h1 a) ! ch ! j =
               (if int ch < amountOfChannels (h a) \<and> 0 \<le> int ch \<and> int j = i
                then buffers (h a) ! ch ! j * amp else buffers (h a) ! ch ! j)"
      by auto
    have step: "fadeLoop (Some a) n incr i amp h = fadeLoop (Some a) n incr (i + 1) (amp - incr) h1"
      using True r1 by (subst fadeLoop.simps) simp
    have lt: "nat (n - (i + 1)) < nat (n - i)" using True by simp
    have wf1: "wellFormed (h1 a)" using s1 less.prems(1) by (rule sameShape_wellFormed)
    have sz: "bufferSize (h1 a) = bufferSize (h a)" "amountOfChannels (h1 a) = amountOfChannels (h a)"
      using s1 by (simp_all add: sameShape_def)
    from less.hyps[of "i + 1" h1 "amp - incr", OF lt wf1] less.prems sz
    obtain h' where r: "fadeLoop (Some a) n incr (i + 1) (amp - incr) h1 = Returns h'"
      and o: "\<forall>x. x \<noteq> a \<longrightarrow> h' x = h1 x" and s: "sameShape (h1 a) (h' a)"
      and f: "\<forall>ch j. buffers (h' a) ! ch ! j =
               (if int ch < amountOfChannels (h a) \<and> i + 1 \<le> int j \<and> int j < n
                then buffers (h1 a) ! ch ! j * (amp - incr - real_of_int (int j - (i + 1)) * incr)
                else buffers (h1 a) ! ch ! j)"
      by auto
    have f': "\<forall>ch j. buffers (h' a) ! ch ! j =
               (if int ch < amountOfChannels (h a) \<and> i \<le> int j \<and> int j < n
                then buffers (h a) ! ch ! j * (amp - real_of_int (int j - i) * incr)
                else buffers (h a) ! ch ! j)"
    proof (intro allI)
      fix ch j
      show "buffers (h' a) ! ch ! j =
               (if int ch < amountOfChannels (h a) \<and> i \<le> int j \<and> int j < n
                then buffers (h a) ! ch ! j * (amp - real_of_int (int j - i) * incr)
                else buffers (h a) ! ch ! j)"
      proof (cases "int j = i")
        case True
        then show ?thesis using f f1 \<open>i < n\<close> by simp
      next
        case False
        then have "buffers (h1 a) ! ch ! j = buffers (h a) ! ch ! j" using f1 by simp
        moreover have "amp - incr - real_of_int (int j - (i + 1)) * incr =
            amp - real_of_int (int j - i) * incr" by (simp add: algebra_simps)
        moreover have "(i + 1 \<le> int j) = (i \<le> int j)" using False by auto
        ultimately show ?thesis using f by simp
      qed
    qed
    from r o o1 s s1 f' step sameShape_trans[OF s1 s] show ?thesis by auto
  qed
qed

lemma sdiv_nonneg: "0 \<le> (a::int) \<Longrightarrow> 0 < b \<Longrightarrow> a sdiv b = a div b"
  by (simp add: signed_divide_int_def sgn_if)

lemmas fade_defs = synthesize_def synthesizeBuffer_def ringOut_def fadeOut_def setDeletable_def
  setDeletableOsc_def synthesizedSamples_def fadeLoop.simps scaleChannels.simps

subsection \<open>The sample window through a render pass and a recalculation\<close>

declare renderLoop.simps [simp del]
declare writeChannels.simps [simp del]

lemma keepsGeometry_refl [simp]: "keepsGeometry f f"
  by (simp add: keepsGeometry_def)

lemma keepsGeometry_trans: "keepsGeometry f f' \<Longrightarrow> keepsGeometry f' f'' \<Longrightarrow> keepsGeometry f f''"
  by (simp add: keepsGeometry_def)

lemma initKarplusStrong_geometry:
  assumes "initKarplusStrong ext w f = Returns (w', f')"
  shows "keepsGeometry f f'"
proof -
  from initKarplusStrong_Returns[OF assms]
  obtain n rb where "f' = f\<lparr>ringBufferSize := n, ringBuffer := Some rb\<rparr>" by blast
  then show ?thesis by (simp add: keepsGeometry_def)
qed

lemma setFrequencyOsc_geometry:
  "setFrequencyOsc ext fr st w f = Returns (w', f') \<Longrightarrow> keepsGeometry f f'"
  by (auto simp: setFrequencyOsc_def Let_def keepsGeometry_def split: if_splits
      dest!: initKarplusStrong_geometry)

lemma setFrequency_geometry:
  "setFrequency ext fr al st w e = Returns (w', e') \<Longrightarrow> keepsGeometry (osc1 e) (osc1 e')"
  by (auto simp: setFrequency_def Let_def bnd_Returns_iff split: option.splits if_splits
      dest!: setFrequencyOsc_geometry)

lemma waveform_geometry:
  "waveform ext i amp w f = Returns (a, w', f') \<Longrightarrow> keepsGeometry f f'"
  by (auto simp: waveform_def Let_def keepsGeometry_def split: WaveForms.splits option.splits prod.splits)

lemma advancePhase_geometry [simp]: "keepsGeometry f (advancePhase f)"
  by (simp add: advancePhase_def Let_def keepsGeometry_def)

lemma stepArpeggiator_geometry:
  "stepArpeggiator ext w e = Returns (w', e') \<Longrightarrow> keepsGeometry (osc1 e) (osc1 e')"
  by (auto simp: stepArpeggiator_def Let_def keepsGeometry_def split: option.splits prod.splits if_splits
      dest!: setFrequency_geometry)

lemma renderSample_geometry:
  "renderSample ext out hasOSC2 i amp w e = Returns (a, w', e') \<Longrightarrow> keepsGeometry (osc1 e) (osc1 e')"
proof -
  assume r: "renderSample ext out hasOSC2 i amp w e = Returns (a, w', e')"
  then obtain amp1 w1 f1 w2 e2 where
    wf: "waveform ext i amp w (osc1 e) = Returns (amp1, w1, f1)"
    and sa: "stepArpeggiator ext w1 (SynthEvent (advancePhase f1) (osc2 e)) = Returns (w2, e2)"
    and e': "osc1 e' = (osc1 e2)\<lparr>cancel := (cancel (osc1 e2) \<or> cancelRequested ext i)\<rparr>"
    by (auto simp: renderSample_def bnd_Returns_iff Let_def)
  have "keepsGeometry (osc1 e) f1" using wf by (rule waveform_geometry)
  moreover have "keepsGeometry f1 (advancePhase f1)" by simp
  moreover have "keepsGeometry (advancePhase f1) (osc1 e2)"
    using stepArpeggiator_geometry[OF sa] by simp
  moreover have "keepsGeometry (osc1 e2) (osc1 e')" using e' by (simp add: keepsGeometry_def)
  ultimately show ?thesis by (blast intro: keepsGeometry_trans)
qed

lemma renderLoop_geometry:
  "renderLoop ext out hasOSC2 m i amp w e = Returns (w', e', i') \<Longrightarrow>
   keepsGeometry (osc1 e) (osc1 e')"
proof (induction "nat (m - i)" arbitrary: i amp w e rule: less_induct)
  case less
  show ?case
  proof (cases "i < m")
    case False
    with less.prems show ?thesis by (subst (asm) renderLoop.simps) simp
  next
    case True
    from less.prems True obtain a1 w1 e1 where
      rs: "renderSample ext out hasOSC2 i amp w e = Returns (a1, w1, e1)"
      and rest: "cancel (osc1 e1) \<and> e' = e1 \<or>
                 renderLoop ext out hasOSC2 m (i + 1) a1 w1 e1 = Returns (w', e', i')"
      by (subst (asm) renderLoop.simps) (auto split: outcome.splits if_splits)
    have k1: "keepsGeometry (osc1 e) (osc1 e1)" using rs by (rule renderSample_geometry)
    from rest show ?thesis
    proof
      assume "cancel (osc1 e1) \<and> e' = e1"
      with k1 show ?thesis by simp
    next
      assume r: "renderLoop ext out hasOSC2 m (i + 1) a1 w1 e1 = Returns (w', e', i')"
      have "nat (m - (i + 1)) < nat (m - i)" using True by simp
      from less.hyps[OF this r] k1 show ?thesis by (rule keepsGeometry_trans[rotated])
    qed
  qed
qed


lemma renderSynthesis_geometry:
  "renderSynthesis ext out w e = Returns (w', e', i') \<Longrightarrow> keepsGeometry (osc1 e) (osc1 e')"
  by (auto simp: renderSynthesis_def bnd_Returns_iff dest: renderLoop_geometry)

lemma renderOSC2_osc1:
  "renderOSC2 ext rc out hasOSC2 bl so eo w e = Returns (w', e') \<Longrightarrow> osc1 e' = osc1 e"
  by (auto simp: renderOSC2_def Let_def bnd_Returns_iff split: if_splits option.splits)

lemma renderEnvelope_geometry:
  "renderEnvelope ext out i w e = (w', e') \<Longrightarrow> keepsGeometry (osc1 e) (osc1 e')"
  by (auto simp: renderEnvelope_def Let_def keepsGeometry_def split: if_splits prod.splits)

lemma keepsGeometry_geometric:
  "keepsGeometry (osc1 e) (osc1 e') \<Longrightarrow> geometric e \<Longrightarrow> geometric e'"
  by (simp add: keepsGeometry_def geometric_def)

lemma renderEpilogue_geometric:
  assumes "renderEpilogue ext recalculate mi i w e = Returns (w', e')"
    and "geometric e" and "preservesGeometric recalculate"
  shows "geometric e'"
proof -
  from assms(1) obtain w1 e1 where
    a: "(if EVENT_CACHING ext \<and> isSequenced (osc1 e) then
            (let e1 = SynthEvent ((osc1 e)\<lparr>caching := False\<rparr>) (osc2 e) in
             if cancel (osc1 e1) then recalculate w e1
             else
               (let f2 = (if i = mi then (osc1 e1)\<lparr>cachingCompleted := True\<rparr> else osc1 e1);
                    f3 = (if bulkCacheable f2 then f2\<lparr>autoCache := True\<rparr> else f2)
                in Returns (w, SynthEvent f3 (osc2 e1))))
          else Returns (w, e)) = Returns (w1, e1)"
    and b: "e' = SynthEvent ((osc1 e1)\<lparr>cancel := False\<rparr>) (osc2 e1)"
    by (auto simp: renderEpilogue_def bnd_Returns_iff)
  have g0: "geometric (SynthEvent ((osc1 e)\<lparr>caching := False\<rparr>) (osc2 e))"
    using assms(2) by (simp add: geometric_def)
  have "geometric e1"
    using a assms(2,3) g0
    by (auto simp: Let_def preservesGeometric_def geometric_def split: if_splits)
  with b show ?thesis by (simp add: geometric_def)
qed

lemma renderBody_geometric:
  assumes "renderBody ext rc recalculate w out e = Returns (w', e')"
    and "geometric e" and "preservesGeometric recalculate"
  shows "geometric e'"
proof -
  from assms(1) obtain ob w1 e1 i w2 e2 where
    syn: "renderSynthesis ext ob w e = Returns (w1, e1, i)"
    and o2: "renderOSC2 ext rc ob (osc2 e \<noteq> None) (bufferSize (objs w ob))
                      (renderStartOffset ext e) (renderEndOffset ext e (bufferSize (objs w ob)))
                      w1 e1 = Returns (w2, e2)"
    and ep: "renderEpilogue ext recalculate (maxSampleIndex e) i
               (fst (renderEnvelope ext ob i w2 e2)) (snd (renderEnvelope ext ob i w2 e2)) = Returns (w', e')"
    by (auto simp: renderBody_def bnd_Returns_iff case_prod_beta Let_def split: option.splits)
  have "geometric e1" using renderSynthesis_geometry[OF syn] assms(2) by (rule keepsGeometry_geometric)
  then have "geometric e2" using renderOSC2_osc1[OF o2] by (simp add: geometric_def)
  then have "geometric (snd (renderEnvelope ext ob i w2 e2))"
    using renderEnvelope_geometry[of ext ob i w2 e2] keepsGeometry_geometric
    by (metis prod.collapse)
  from renderEpilogue_geometric[OF ep this assms(3)] show ?thesis .
qed

lemma cacheBody_geometric:
  assumes "\<And>out. preservesGeometric (\<lambda>w e. doRender w out e)"
  shows "preservesGeometric (cacheBody ext doRender cb)"
  unfolding preservesGeometric_def
proof (intro allI impI)
  fix w e w' e'
  assume r: "cacheBody ext doRender cb w e = Returns (w', e')" and g: "geometric e"
  show "geometric e'"
  proof (cases "buffer (osc1 e) = None")
    case True
    with r g show ?thesis by (simp add: cacheBody_def)
  next
    case False
    let ?e1 = "SynthEvent ((osc1 e)\<lparr>caching := True\<rparr>) (osc2 e)"
    from r False obtain w1 where "doRender w (buffer (osc1 ?e1)) ?e1 = Returns (w1, e')"
      by (auto simp: cacheBody_def Let_def bnd_Returns_iff)
    moreover have "geometric ?e1" using g by (simp add: geometric_def)
    ultimately show ?thesis using assms[of "buffer (osc1 ?e1)"]
      by (auto simp: preservesGeometric_def)
  qed
qed

lemma calculateGeometry_geometry:
  "calculateGeometry ext f = (ol, f') \<Longrightarrow> isSequenced f \<Longrightarrow>
   isSequenced f' \<and> sampleEnd f' - sampleStart f' = sampleLength f'"
  by (auto simp: calculateGeometry_def Let_def split: if_splits)

lemma reallocateBuffer_geometry:
  "reallocateBuffer ext w ol f = Returns (w', f') \<Longrightarrow> keepsGeometry f f'"
  by (auto simp: reallocateBuffer_def Let_def destroyBuffer_def bnd_Returns_iff keepsGeometry_def
      split: if_splits)

lemma restartCache_geometric:
  assumes run: "restartCache ext recache w e = Returns (w', e')"
    and g: "geometric e" and reset: "resetKeepsGeometry ext" and rec: "preservesGeometric recache"
  shows "geometric e'"
proof -
  from run g obtain w5 f5 where
    ks: "(if wtype (osc1 e) = KARPLUS_STRONG then initKarplusStrong ext w (osc1 e)
             else Returns (w, osc1 e)) = Returns (w5, f5)"
    and rest: "(if EVENT_CACHING ext then
               (let e6 = resetCache ext (SynthEvent f5 (osc2 e)) in
                if autoCache (osc1 e6) \<and> \<not> hasParent (osc1 e6) then
                  (if \<not> caching (osc1 e6) then recache w5 e6
                   else Returns (w5, SynthEvent ((osc1 e6)\<lparr>cancel := True\<rparr>) (osc2 e6)))
                else Returns (w5, e6))
             else Returns (w5, SynthEvent f5 (osc2 e))) = Returns (w', e')"
    by (auto simp: restartCache_def geometric_def bnd_Returns_iff)
  have k5: "keepsGeometry (osc1 e) f5"
    using ks by (auto split: if_splits dest: initKarplusStrong_geometry)
  then have g5: "geometric (SynthEvent f5 (osc2 e))"
    using g by (simp add: geometric_def keepsGeometry_def)
  let ?e6 = "resetCache ext (SynthEvent f5 (osc2 e))"
  have "keepsGeometry f5 (osc1 ?e6)"
    using reset by (simp add: resetCache_def resetKeepsGeometry_def)
  then have g6: "geometric ?e6"
    using g5 by (simp add: geometric_def keepsGeometry_def)
  then have g6': "geometric (SynthEvent ((osc1 ?e6)\<lparr>cancel := True\<rparr>) (osc2 ?e6))"
    by (simp add: geometric_def)
  from rest g5 g6 g6' rec show ?thesis
    by (auto simp: Let_def preservesGeometric_def split: if_splits)
qed

lemma calculateBuffersBody_geometric:
  assumes run: "calculateBuffersBody ext recache w e = Returns (w', e')"
    and seq: "isSequenced (osc1 e)"
    and pre: "\<not> locked (osc1 e) \<or> geometric e"
    and reset: "resetKeepsGeometry ext"
    and rec: "preservesGeometric recache"
  shows "geometric e'"
proof (cases "locked (osc1 e)")
  case True
  with run pre show ?thesis by (auto simp: calculateBuffersBody_def geometric_def)
next
  case False
  obtain ol f2 where cg: "calculateGeometry ext (osc1 e) = (ol, f2)" by (cases "calculateGeometry ext (osc1 e)")
  from run False cg obtain w4 f4 where
    ra: "reallocateBuffer ext w ol f2 = Returns (w4, f4)"
    and rc: "restartCache ext recache w4 (SynthEvent f4 (osc2 e)) = Returns (w', e')"
    by (auto simp: calculateBuffersBody_def bnd_Returns_iff)
  have "isSequenced f2 \<and> sampleEnd f2 - sampleStart f2 = sampleLength f2"
    using cg seq by (rule calculateGeometry_geometry)
  then have "geometric (SynthEvent f4 (osc2 e))"
    using reallocateBuffer_geometry[OF ra] by (simp add: geometric_def keepsGeometry_def)
  with rc show ?thesis using reset rec by (rule restartCache_geometric)
qed

lemma render_geometric: "preservesGeometric (\<lambda>w e. render n ext w out e)" if "resetKeepsGeometry ext"
proof (induction n arbitrary: out)
  case 0
  show ?case by (simp add: preservesGeometric_def)
next
  case (Suc n)
  have c: "preservesGeometric (cacheBody ext (render n ext) False)"
    using Suc.IH by (rule cacheBody_geometric)
  have cb: "preservesGeometric (calculateBuffersBody ext (cacheBody ext (render n ext) False))"
    unfolding preservesGeometric_def
  proof (intro allI impI)
    fix w e w' e'
    assume "calculateBuffersBody ext (cacheBody ext (render n ext) False) w e = Returns (w', e')"
      and "geometric e"
    then show "geometric e'"
      using calculateBuffersBody_geometric[OF _ _ _ that c] by (auto simp: geometric_def)
  qed
  show ?case
    unfolding preservesGeometric_def
    using renderBody_geometric[OF _ _ cb] by auto
qed

lemma calculateBuffers_geometric:
  assumes "calculateBuffers n ext w e = Returns (w', e')"
    and "isSequenced (osc1 e)" and "\<not> locked (osc1 e) \<or> geometric e"
    and "resetKeepsGeometry ext"
  shows "geometric e'"
proof -
  have "preservesGeometric (cache n ext False)"
    unfolding cache_def using render_geometric[OF assms(4)] by (rule cacheBody_geometric)
  with assms show ?thesis
    unfolding calculateBuffers_def by (rule calculateBuffersBody_geometric)
qed


lemma recalculations_geometric:
  assumes "resetKeepsGeometry ext"
  shows "geometric e \<Longrightarrow> \<forall>g \<in> set gs. \<forall>x. keepsGeometry (osc1 x) (osc1 (g x)) \<Longrightarrow>
         recalculations n ext gs w e = Returns (w', e') \<Longrightarrow> geometric e'"
proof (induction gs arbitrary: w e)
  case Nil
  then show ?case by simp
next
  case (Cons g gs)
  from Cons.prems(3) obtain w1 e1 where
    c: "calculateBuffers n ext w (g e) = Returns (w1, e1)"
    and r: "recalculations n ext gs w1 e1 = Returns (w', e')"
    by (auto simp: bnd_Returns_iff)
  have "keepsGeometry (osc1 e) (osc1 (g e))" using Cons.prems(2) by simp
  then have gg: "geometric (g e)" using Cons.prems(1) by (rule keepsGeometry_geometric)
  then have "geometric e1"
    using calculateBuffers_geometric[OF c _ _ assms] by (simp add: geometric_def)
  then show ?case using Cons.IH[OF _ _ r] Cons.prems(2) by simp
qed

lemma calculateBuffers_streaming_returns:
  assumes "\<not> EVENT_CACHING ext" "0 \<le> OUTPUT_CHANNELS ext" "0 \<le> BUFFER_SIZE ext"
    and "wtype (osc1 e) \<noteq> KARPLUS_STRONG"
  shows "\<exists>w' e'. calculateBuffers n ext w e = Returns (w', e')"
  using assms
  by (auto simp: calculateBuffers_def calculateBuffersBody_def calculateGeometry_def
      reallocateBuffer_def restartCache_def destroyBuffer_def allocate_def newAudioBuffer_def Let_def)
subsection \<open>What a render pass leaves alone\<close>

lemma framed_refl [simp]: "framed b w w"
  by (simp add: framed_def)

lemma framed_trans: "framed b w w1 \<Longrightarrow> framed b w1 w2 \<Longrightarrow> framed b w w2"
  by (auto simp: framed_def)

lemma framedI:
  "nextFree w \<le> nextFree w' \<Longrightarrow> (\<And>x. x \<noteq> b \<Longrightarrow> x < nextFree w \<Longrightarrow> objs w' x = objs w x) \<Longrightarrow>
   framed b w w'"
  by (simp add: framed_def)

lemma framed_same:
  "nextFree w' = nextFree w \<Longrightarrow> (\<And>x. x \<noteq> b \<Longrightarrow> objs w' x = objs w x) \<Longrightarrow> framed b w w'"
  by (simp add: framed_def)

lemma writeChannels_others:
  "writeChannels out i v ca c h = Returns h' \<Longrightarrow> x \<noteq> out \<Longrightarrow> h' x = h x"
proof (induction "nat (ca - c)" arbitrary: c h rule: less_induct)
  case less
  show ?case
  proof (cases "c < ca")
    case False
    with less.prems show ?thesis by (subst (asm) writeChannels.simps) simp
  next
    case True
    let ?h = "h(out := setSample (h out) c i v)"
    from less.prems(1) True have r: "writeChannels out i v ca (c + 1) ?h = Returns h'"
      by (subst (asm) writeChannels.simps) (simp split: if_splits)
    have "nat (ca - (c + 1)) < nat (ca - c)" using True by simp
    from less.hyps[OF this r less.prems(2)] less.prems(2) show ?thesis by simp
  qed
qed

lemma mergeChannels_others:
  "mergeChannels this a ro wo v sl msc m n c h w = Returns (h', w', c') \<Longrightarrow> x \<noteq> this \<Longrightarrow>
   h' x = h x"
proof (induction "nat (n - c)" arbitrary: c h w rule: less_induct)
  case less
  show ?case
  proof (cases "c < n \<and> c \<le> msc")
    case False
    with less.prems show ?thesis by (simp add: mergeChannels_stop)
  next
    case True
    from less.prems(1) True obtain h1 w1 where
      ms: "mergeSamples this a c sl v m wo ro h w = Returns (h1, w1)"
      and r: "mergeChannels this a ro wo v sl msc m n (c + 1) h1 w1 = Returns (h', w', c')"
      by (subst (asm) mergeChannels.simps) (auto split: if_splits outcome.splits)
    have "nat (n - (c + 1)) < nat (n - c)" using True by simp
    from less.hyps[OF this r less.prems(2)] mergeSamples_others[OF ms less.prems(2)]
    show ?thesis by simp
  qed
qed

lemma mergeBuffers_others:
  "mergeBuffers h this a ro wo v = Returns (h', k) \<Longrightarrow> x \<noteq> this \<Longrightarrow> h' x = h x"
  by (auto simp: mergeBuffers_def Let_def split: option.splits if_splits outcome.splits
      dest: mergeChannels_others)


subsection \<open>What the synthesis loop leaves alone\<close>

lemma loopKeeps_refl [simp]: "loopKeeps f f"
  by (simp add: loopKeeps_def)

lemma loopKeeps_trans: "loopKeeps f f' \<Longrightarrow> loopKeeps f' f'' \<Longrightarrow> loopKeeps f f''"
  by (simp add: loopKeeps_def)

lemma initKarplusStrong_keeps:
  assumes "initKarplusStrong ext w f = Returns (w', f')"
  shows "loopKeeps f f' \<and> cancel f' = cancel f \<and> objs w' = objs w \<and> nextFree w' = nextFree w"
proof -
  from initKarplusStrong_Returns[OF assms]
  obtain n rb where "f' = f\<lparr>ringBufferSize := n, ringBuffer := Some rb\<rparr>"
    "w' = w\<lparr>randomCalls := randomCalls w + nat n\<rparr>" by blast
  then show ?thesis by (simp add: loopKeeps_def)
qed

lemma setFrequencyOsc_keeps:
  assumes "setFrequencyOsc ext fr st w f = Returns (w', f')"
  shows "loopKeeps f f' \<and> cancel f' = cancel f \<and> objs w' = objs w \<and> nextFree w' = nextFree w"
proof -
  let ?f1 = "f\<lparr>frequency := fr, phaseIncr := fr / real_of_int (SAMPLE_RATE ext)\<rparr>"
  let ?f2 = "if st then ?f1\<lparr>baseFrequency := fr\<rparr> else ?f1"
  have k2: "loopKeeps f ?f2" "cancel ?f2 = cancel f" by (simp_all add: loopKeeps_def)
  show ?thesis
  proof (cases "wtype ?f2 = KARPLUS_STRONG")
    case True
    then have "initKarplusStrong ext w ?f2 = Returns (w', f')"
      using assms by (simp add: setFrequencyOsc_def Let_def)
    from initKarplusStrong_keeps[OF this] k2 show ?thesis
      by (metis loopKeeps_trans)
  next
    case False
    then have "w' = w" "f' = ?f2" using assms by (simp_all add: setFrequencyOsc_def Let_def)
    then show ?thesis using k2 by simp
  qed
qed

lemma setFrequency_keeps:
  assumes "setFrequency ext fr al st w e = Returns (w', e')"
  shows "loopKeeps (osc1 e) (osc1 e') \<and> cancel (osc1 e') = cancel (osc1 e) \<and>
         objs w' = objs w \<and> nextFree w' = nextFree w \<and>
         (osc2 e' = None) = (osc2 e = None)"
proof (cases "osc2 e")
  case None
  with assms obtain w1 f1 where
    a: "setFrequencyOsc ext fr st w (osc1 e) = Returns (w1, f1)"
    and r: "w' = w1" "e' = SynthEvent f1 None"
    by (auto simp: setFrequency_def Let_def bnd_Returns_iff)
  from setFrequencyOsc_keeps[OF a] r None show ?thesis by simp
next
  case (Some c)
  show ?thesis
  proof (cases al)
    case False
    with assms Some obtain w1 f1 where
      a: "setFrequencyOsc ext fr st w (osc1 e) = Returns (w1, f1)"
      and r: "w' = w1" "e' = SynthEvent f1 (Some c)"
      by (auto simp: setFrequency_def Let_def bnd_Returns_iff)
    from setFrequencyOsc_keeps[OF a] r Some show ?thesis by simp
  next
    case True
    with assms Some obtain w1 f1 w2 c1 where
      a: "setFrequencyOsc ext fr st w (osc1 e) = Returns (w1, f1)"
      and c: "setFrequencyOsc ext (frequency c * (fr / frequency (osc1 e))) st w1 c = Returns (w2, c1)"
      and r: "w' = w2" "e' = SynthEvent f1 (Some c1)"
      by (auto simp: setFrequency_def Let_def bnd_Returns_iff)
    from setFrequencyOsc_keeps[OF a] setFrequencyOsc_keeps[OF c] r Some show ?thesis by simp
  qed
qed

lemma waveform_keeps:
  "waveform ext i amp w f = Returns (a, w', f') \<Longrightarrow>
   loopKeeps f f' \<and> cancel f' = cancel f \<and> objs w' = objs w \<and> nextFree w' = nextFree w \<and>
   arpeggiator f' = arpeggiator f"
  by (cases "wtype f")
    (auto simp: waveform_def Let_def loopKeeps_def split: option.splits prod.splits)

lemma advancePhase_keeps [simp]:
  "loopKeeps f (advancePhase f)" "cancel (advancePhase f) = cancel f"
  "arpeggiator (advancePhase f) = arpeggiator f" "ringBuffer (advancePhase f) = ringBuffer f"
  "wtype (advancePhase f) = wtype f"
  by (simp_all add: advancePhase_def Let_def loopKeeps_def)

lemma stepArpeggiator_keeps:
  assumes "stepArpeggiator ext w e = Returns (w', e')"
  shows "loopKeeps (osc1 e) (osc1 e') \<and> cancel (osc1 e') = cancel (osc1 e) \<and>
         objs w' = objs w \<and> nextFree w' = nextFree w \<and>
         (osc2 e' = None) = (osc2 e = None)"
proof (cases "arpeggiator (osc1 e)")
  case None
  with assms have "w' = w" "e' = e" by (simp_all add: stepArpeggiator_def)
  then show ?thesis by simp
next
  case (Some arp)
  obtain b arp' where pk: "arp_peek ext arp = (b, arp')" by (cases "arp_peek ext arp")
  define e1 where "e1 = SynthEvent ((osc1 e)\<lparr>arpeggiator := Some arp'\<rparr>) (osc2 e)"
  have k1: "loopKeeps (osc1 e) (osc1 e1)" "cancel (osc1 e1) = cancel (osc1 e)" "osc2 e1 = osc2 e"
    using Some by (simp_all add: loopKeeps_def e1_def)
  show ?thesis
  proof (cases b)
    case False
    with assms Some pk have "w' = w" "e' = e1"
      by (simp_all add: stepArpeggiator_def e1_def)
    with k1 show ?thesis by simp
  next
    case True
    define fr where "fr = arp_getPitchForStep ext arp' (arp_getStep ext arp') (baseFrequency (osc1 e1))"
    have "setFrequency ext fr True False w e1 = Returns (w', e')"
      using assms Some pk True by (simp add: stepArpeggiator_def e1_def fr_def)
    note kp = setFrequency_keeps[OF this]
    have "loopKeeps (osc1 e) (osc1 e')" using k1(1) kp by (blast intro: loopKeeps_trans)
    with kp k1 show ?thesis by simp
  qed
qed

lemma renderSample_keeps:
  assumes "renderSample ext out hasOSC2 i amp w e = Returns (a, w', e')"
  shows "loopKeeps (osc1 e) (osc1 e') \<and> nextFree w' = nextFree w \<and>
         (\<forall>x. x \<noteq> out \<longrightarrow> objs w' x = objs w x) \<and> (osc2 e' = None) = (osc2 e = None)"
proof -
  from assms obtain amp1 w1 f1 w2 e2 h where
    wf: "waveform ext i amp w (osc1 e) = Returns (amp1, w1, f1)"
    and sa: "stepArpeggiator ext w1 (SynthEvent (advancePhase f1) (osc2 e)) = Returns (w2, e2)"
    and wc: "writeChannels out i ((if hasOSC2 then amp1 * 0.5 else amp1) * volume (osc1 e2))
               (amountOfChannels (objs w2 out)) 0 (objs w2) = Returns h"
    and w': "w' = w2\<lparr>objs := h\<rparr>"
    and e': "e' = SynthEvent ((osc1 e2)\<lparr>cancel := (cancel (osc1 e2) \<or> cancelRequested ext i)\<rparr>)
                    (osc2 e2)"
    by (auto simp: renderSample_def bnd_Returns_iff Let_def)
  note kw = waveform_keeps[OF wf]
  note ks = stepArpeggiator_keeps[OF sa]
  have "loopKeeps (osc1 e) f1" using kw by simp
  moreover have "loopKeeps f1 (advancePhase f1)" by simp
  moreover have "loopKeeps (advancePhase f1) (osc1 e2)" using ks by simp
  moreover have "loopKeeps (osc1 e2) (osc1 e')" using e' by (simp add: loopKeeps_def)
  ultimately have k: "loopKeeps (osc1 e) (osc1 e')" by (blast intro: loopKeeps_trans)
  have n: "nextFree w' = nextFree w" using w' kw ks by simp
  have o: "\<forall>x. x \<noteq> out \<longrightarrow> objs w' x = objs w x"
    using writeChannels_others[OF wc] w' kw ks by simp
  have "(osc2 e' = None) = (osc2 e = None)" using e' ks by simp
  with k n o show ?thesis by simp
qed

lemma renderLoop_keeps:
  "renderLoop ext out hasOSC2 m i amp w e = Returns (w', e', i') \<Longrightarrow>
   loopKeeps (osc1 e) (osc1 e') \<and> nextFree w' = nextFree w \<and>
   (\<forall>x. x \<noteq> out \<longrightarrow> objs w' x = objs w x) \<and> (osc2 e' = None) = (osc2 e = None)"
proof (induction "nat (m - i)" arbitrary: i amp w e rule: less_induct)
  case less
  show ?case
  proof (cases "i < m")
    case False
    with less.prems show ?thesis by (subst (asm) renderLoop.simps) simp
  next
    case True
    from less.prems True obtain a1 w1 e1 where
      rs: "renderSample ext out hasOSC2 i amp w e = Returns (a1, w1, e1)"
      and rest: "cancel (osc1 e1) \<and> e' = e1 \<and> w' = w1 \<or>
                 renderLoop ext out hasOSC2 m (i + 1) a1 w1 e1 = Returns (w', e', i')"
      by (subst (asm) renderLoop.simps) (auto split: outcome.splits if_splits)
    note k1 = renderSample_keeps[OF rs]
    from rest show ?thesis
    proof
      assume "cancel (osc1 e1) \<and> e' = e1 \<and> w' = w1"
      with k1 show ?thesis by simp
    next
      assume r: "renderLoop ext out hasOSC2 m (i + 1) a1 w1 e1 = Returns (w', e', i')"
      have "nat (m - (i + 1)) < nat (m - i)" using True by simp
      note k2 = less.hyps[OF this r]
      have "loopKeeps (osc1 e) (osc1 e')" using k1 k2 by (blast intro: loopKeeps_trans)
      with k1 k2 show ?thesis by simp
    qed
  qed
qed

lemma renderPrologue_keeps:
  "renderPrologue ext out w e = Returns w0 \<Longrightarrow>
   nextFree w0 = nextFree w \<and> (\<forall>x. x \<noteq> out \<longrightarrow> objs w0 x = objs w x)"
  by (auto simp: renderPrologue_def bnd_Returns_iff split: if_splits)

lemma renderSynthesis_keeps:
  assumes "renderSynthesis ext out w e = Returns (w', e', i')"
  shows "loopKeeps (osc1 e) (osc1 e') \<and> nextFree w' = nextFree w \<and>
         (\<forall>x. x \<noteq> out \<longrightarrow> objs w' x = objs w x) \<and> (osc2 e' = None) = (osc2 e = None)"
proof -
  from assms obtain w0 where p: "renderPrologue ext out w e = Returns w0"
    and l: "renderLoop ext out (osc2 e \<noteq> None) (renderEndOffset ext e (bufferSize (objs w out)))
              (renderStartOffset ext e) 0 w0 e = Returns (w', e', i')"
    by (auto simp: renderSynthesis_def bnd_Returns_iff)
  from renderPrologue_keeps[OF p] renderLoop_keeps[OF l] show ?thesis by simp
qed


lemma allocate_Returns:
  "allocate w ca n = Returns (w1, t) \<Longrightarrow>
   t = nextFree w \<and> nextFree w1 = Suc (nextFree w) \<and> (\<forall>x. x \<noteq> t \<longrightarrow> objs w1 x = objs w x) \<and>
   randomCalls w1 = randomCalls w"
  by (auto simp: allocate_def bnd_Returns_iff)

lemma renderOSC2_frame:
  assumes child: "\<And>w t c w' c'. renderChild w (Some t) c = Returns (w', c') \<Longrightarrow> framed t w w'"
    and r: "renderOSC2 ext renderChild b hasOSC2 bufferLength startOffset endOffset w e = Returns (w', e')"
  shows "framed b w w' \<and> osc1 e' = osc1 e"
proof (cases "hasOSC2 \<and> \<not> cancel (osc1 e)")
  case False
  with r have "w' = w" "e' = e" by (auto simp: renderOSC2_def)
  then show ?thesis by simp
next
  case True
  let ?len = "if EVENT_CACHING ext \<and> isSequenced (osc1 e)
              then endOffset - cacheWriteIndex (osc1 e) else bufferLength"
  from r True obtain w1 t c w2 ce h k where
    al: "allocate w (amountOfChannels (objs w b)) ?len = Returns (w1, t)"
    and c: "osc2 e = Some c"
    and rc: "renderChild w1 (Some t) (SynthEvent c None) = Returns (w2, ce)"
    and mb: "mergeBuffers (objs w2) b (Some t) 0 startOffset MAX_PHASE = Returns (h, k)"
    and w': "w' = w2\<lparr>objs := h\<rparr>" and e': "e' = SynthEvent (osc1 e) (Some (osc1 ce))"
    by (auto simp: renderOSC2_def Let_def bnd_Returns_iff split: option.splits)
  note a = allocate_Returns[OF al]
  note f = child[OF rc]
  have "nextFree w \<le> nextFree w'" using a f w' by (simp add: framed_def)
  moreover have "objs w' x = objs w x" if "x \<noteq> b" "x < nextFree w" for x
  proof -
    have "x \<noteq> t" using a that by simp
    have "objs w' x = objs w2 x" using w' mergeBuffers_others[OF mb that(1)] by simp
    also have "\<dots> = objs w1 x" using f \<open>x \<noteq> t\<close> that a by (simp add: framed_def)
    also have "\<dots> = objs w x" using a \<open>x \<noteq> t\<close> by simp
    finally show ?thesis .
  qed
  ultimately have "framed b w w'" by (simp add: framed_def)
  with e' show ?thesis by simp
qed

lemma renderEnvelope_keeps:
  "renderEnvelope ext out i w e = (w', e') \<Longrightarrow>
   nextFree w' = nextFree w \<and> (\<forall>x. x \<noteq> out \<longrightarrow> objs w' x = objs w x) \<and>
   buffer (osc1 e') = buffer (osc1 e) \<and> osc2 e' = osc2 e"
  by (auto simp: renderEnvelope_def Let_def split: if_splits prod.splits)

lemma renderEpilogue_streaming:
  "\<not> EVENT_CACHING ext \<Longrightarrow>
   renderEpilogue ext recalculate maxIndex i w e =
     Returns (w, SynthEvent ((osc1 e)\<lparr>cancel := False\<rparr>) (osc2 e))"
  by (simp add: renderEpilogue_def)

lemma render_streaming_frame:
  assumes s: "\<not> EVENT_CACHING ext"
  shows "render n ext w (Some b) e = Returns (w', e') \<Longrightarrow>
         framed b w w' \<and> buffer (osc1 e') = buffer (osc1 e)"
proof (induction n arbitrary: w b e w' e')
  case 0
  then show ?case by simp
next
  case (Suc n)
  let ?recalc = "calculateBuffersBody ext (cacheBody ext (render n ext) False)"
  from Suc.prems obtain w1 e1 i w2 e2 where
    rs: "renderSynthesis ext b w e = Returns (w1, e1, i)"
    and ro: "renderOSC2 ext (render n ext) b (osc2 e \<noteq> None) (bufferSize (objs w b))
               (renderStartOffset ext e) (renderEndOffset ext e (bufferSize (objs w b))) w1 e1
             = Returns (w2, e2)"
    and re: "(case renderEnvelope ext b i w2 e2 of
                (w3, e3) \<Rightarrow> renderEpilogue ext ?recalc (maxSampleIndex e) i w3 e3) = Returns (w', e')"
    by (auto simp: renderBody_def bnd_Returns_iff Let_def)
  obtain w3 e3 where env: "renderEnvelope ext b i w2 e2 = (w3, e3)"
    by (cases "renderEnvelope ext b i w2 e2")
  with re s have fin: "w' = w3" "e' = SynthEvent ((osc1 e3)\<lparr>cancel := False\<rparr>) (osc2 e3)"
    by (simp_all add: renderEpilogue_streaming)
  note k1 = renderSynthesis_keeps[OF rs]
  have child: "\<And>w t c w' c'. render n ext w (Some t) c = Returns (w', c') \<Longrightarrow> framed t w w'"
    using Suc.IH by blast
  have k2: "framed b w1 w2 \<and> osc1 e2 = osc1 e1"
    by (rule renderOSC2_frame[OF _ ro]) (rule child)
  note k3 = renderEnvelope_keeps[OF env]
  have f1: "framed b w w1" using k1 by (simp add: framed_def)
  have f3: "framed b w2 w3" using k3 by (simp add: framed_def)
  have "framed b w w3" using f1 k2 f3 by (blast intro: framed_trans)
  moreover have "buffer (osc1 e3) = buffer (osc1 e)"
    using k1 k2 k3 by (simp add: loopKeeps_def)
  ultimately show ?case using fin by simp
qed

lemma calculateBuffers_streaming_frame:
  assumes "\<not> EVENT_CACHING ext" and "calculateBuffers n ext w e = Returns (w', e')"
    and "x < nextFree w"
  shows "objs w' x = objs w x"
proof (cases "locked (osc1 e)")
  case True
  with assms show ?thesis by (simp add: calculateBuffers_def calculateBuffersBody_def)
next
  case False
  obtain oldLength f2 where g: "calculateGeometry ext (osc1 e) = (oldLength, f2)"
    by (cases "calculateGeometry ext (osc1 e)")
  from assms(2) False g obtain w4 f4 where
    ra: "reallocateBuffer ext w oldLength f2 = Returns (w4, f4)"
    and rc: "restartCache ext (cache n ext False) w4 (SynthEvent f4 (osc2 e)) = Returns (w', e')"
    by (auto simp: calculateBuffers_def calculateBuffersBody_def bnd_Returns_iff)
  have a: "objs w4 x = objs w x"
    using ra assms(3)
    by (auto simp: reallocateBuffer_def Let_def bnd_Returns_iff split: if_splits
        dest!: allocate_Returns)
  have "objs w' = objs w4"
  proof (cases "isSequenced f4 \<and> wtype f4 = KARPLUS_STRONG")
    case True
    with rc assms(1) obtain w5 f5 where "initKarplusStrong ext w4 f4 = Returns (w5, f5)" "w' = w5"
      by (auto simp: restartCache_def bnd_Returns_iff)
    with initKarplusStrong_keeps[of ext w4 f4 w5 f5] show ?thesis by simp
  next
    case False
    with rc assms(1) show ?thesis
      by (auto simp: restartCache_def bnd_Returns_iff split: if_splits)
  qed
  with a show ?thesis by simp
qed

subsection \<open>The slice \<^verbatim>\<open>mixBuffer\<close> merges in streaming mode\<close>

lemma mergeBuffers_mixed:
  assumes wf: "wellFormed (h this)" "wellFormed (h a)"
    and ch: "1 \<le> amountOfChannels (h this)" "1 \<le> amountOfChannels (h a)"
    and ne: "a \<noteq> this" and wo: "0 \<le> wo"
  shows "\<exists>h' k. mergeBuffers h this (Some a) 0 wo MAX_PHASE = Returns (h', k) \<and>
           (\<forall>x. x \<noteq> this \<longrightarrow> h' x = h x) \<and> sameShape (h this) (h' this) \<and>
           (\<forall>ch j. buffers (h' this) ! ch ! j =
              (if int ch < min (amountOfChannels (h this)) (amountOfChannels (h a)) \<and>
                  wo \<le> int j \<and>
                  int j < wo + max 0 (min (bufferSize (h a)) (bufferSize (h this) - wo))
               then buffers (h this) ! ch ! j + buffers (h a) ! ch ! nat (int j - wo)
               else buffers (h this) ! ch ! j))"
proof (cases "wo < bufferSize (h this)")
  case False
  then have "mergeBuffers h this (Some a) 0 wo MAX_PHASE = Returns (h, 0)"
    by (simp add: mergeBuffers_def)
  moreover have "max 0 (min (bufferSize (h a)) (bufferSize (h this) - wo)) = 0"
    using False by simp
  ultimately show ?thesis by simp
next
  case True
  let ?k = "samplesPerChannel (loopeable (h a)) (bufferSize (h a)) 0
              (min (bufferSize (h a)) (bufferSize (h this) - wo))"
  let ?c = "min (amountOfChannels (h this)) (amountOfChannels (h a))"
  have k: "?k = max 0 (min (bufferSize (h a)) (bufferSize (h this) - wo))"
    by (auto simp: samplesPerChannel_def)
  have z: "(0::int) \<le> 0" by simp
  from mergeBuffers_spec[OF wf wo True z ch refl refl, of MAX_PHASE]
  obtain h' where r: "mergeBuffers h this (Some a) 0 wo MAX_PHASE = Returns (h', ?k)"
    and o: "\<forall>x. x \<noteq> this \<longrightarrow> h' x = h x"
    and s: "\<forall>x. sameShape (h x) (h' x)"
    and un: "\<forall>ch j. \<not> (int ch < ?c \<and> wo \<le> int j \<and> int j < wo + ?k) \<longrightarrow>
                buffers (h' this) ! ch ! j = buffers (h this) ! ch ! j"
    and mx: "a \<noteq> this \<and> (0::int) = 0 \<longrightarrow>
              (\<forall>ch j. int ch < ?c \<and> wo \<le> int j \<and> int j < wo + ?k \<longrightarrow>
                 buffers (h' this) ! ch ! j =
                 buffers (h this) ! ch ! j + buffers (h a) ! ch ! nat (int j - wo) * MAX_PHASE)"
    by blast
  have "\<forall>ch j. buffers (h' this) ! ch ! j =
              (if int ch < ?c \<and> wo \<le> int j \<and> int j < wo + ?k
               then buffers (h this) ! ch ! j + buffers (h a) ! ch ! nat (int j - wo)
               else buffers (h this) ! ch ! j)"
    using un mx ne by (simp add: MAX_PHASE_def)
  with r o s show ?thesis unfolding k by blast
qed


lemma mixSlice_streaming:
  assumes st: "\<not> EVENT_CACHING ext"
    and e1: "e1 = SynthEvent ((osc1 e)\<lparr>cacheWriteIndex :=
                 (if sampleStart (osc1 e) > bufferPos then 0 else bufferPos - sampleStart (osc1 e))\<rparr>)
               (osc2 e)"
    and wo: "wo = (if sampleStart (osc1 e) > bufferPos then sampleStart (osc1 e) - bufferPos else 0)"
    and b: "buffer (osc1 e) = Some b" "b \<noteq> out" "out < nextFree w" "b < nextFree w"
    and rend: "render n ext w (Some b) e1 = Returns (w2, e2)"
    and wf: "wellFormed (objs w out)" "wellFormed (objs w2 b)"
    and ch: "1 \<le> amountOfChannels (objs w out)" "1 \<le> amountOfChannels (objs w2 b)"
  shows "\<exists>h. (\<forall>x. x \<noteq> out \<longrightarrow> h x = objs w2 x) \<and> sameShape (objs w out) (h out) \<and>
           (\<forall>ch j. buffers (h out) ! ch ! j =
              (if int ch < min (amountOfChannels (objs w out)) (amountOfChannels (objs w2 b)) \<and>
                  wo \<le> int j \<and>
                  int j < wo + max 0 (min (bufferSize (objs w2 b)) (bufferSize (objs w out) - wo))
               then buffers (objs w out) ! ch ! j + buffers (objs w2 b) ! ch ! nat (int j - wo)
               else buffers (objs w out) ! ch ! j)) \<and>
           mixSlice n ext w e out bufferPos =
             (if sampleLength (osc1 e2) \<le> cacheWriteIndex (osc1 e2)
              then calculateBuffers n ext (w2\<lparr>objs := h\<rparr>) e2
              else Returns (w2\<lparr>objs := h\<rparr>, e2)) \<and>
           (\<forall>w' e'. mixSlice n ext w e out bufferPos = Returns (w', e') \<longrightarrow>
              objs w' out = h out \<and> objs w' b = objs w2 b)"
proof -
  note fr = render_streaming_frame[OF st rend]
  have b1: "buffer (osc1 e1) = Some b" using e1 b(1) by simp
  have b2: "buffer (osc1 e2) = Some b" using fr b1 by simp
  have oo: "objs w2 out = objs w out" using fr b(2,3) by (simp add: framed_def)
  have nf: "nextFree w \<le> nextFree w2" using fr by (simp add: framed_def)
  have wo0: "0 \<le> wo" using wo by simp
  have wf2: "wellFormed (objs w2 out)" "1 \<le> amountOfChannels (objs w2 out)"
    using wf(1) ch(1) oo by simp_all
  from mergeBuffers_mixed[where h = "objs w2" and this = out and a = b and wo = wo,
      OF wf2(1) wf(2) wf2(2) ch(2) b(2) wo0]
  obtain h k where mb: "mergeBuffers (objs w2) out (Some b) 0 wo MAX_PHASE = Returns (h, k)"
    and o: "\<forall>x. x \<noteq> out \<longrightarrow> h x = objs w2 x"
    and s: "sameShape (objs w2 out) (h out)"
    and c: "\<forall>ch j. buffers (h out) ! ch ! j =
              (if int ch < min (amountOfChannels (objs w2 out)) (amountOfChannels (objs w2 b)) \<and>
                  wo \<le> int j \<and>
                  int j < wo + max 0 (min (bufferSize (objs w2 b)) (bufferSize (objs w2 out) - wo))
               then buffers (objs w2 out) ! ch ! j + buffers (objs w2 b) ! ch ! nat (int j - wo)
               else buffers (objs w2 out) ! ch ! j)"
    by blast
  have ms: "mixSlice n ext w e out bufferPos =
             (if sampleLength (osc1 e2) \<le> cacheWriteIndex (osc1 e2)
              then calculateBuffers n ext (w2\<lparr>objs := h\<rparr>) e2
              else Returns (w2\<lparr>objs := h\<rparr>, e2))"
    using rend mb b1 b2 unfolding mixSlice_def Let_def e1[symmetric] wo[symmetric] by simp
  have post: "objs w' out = h out \<and> objs w' b = objs w2 b"
    if r: "mixSlice n ext w e out bufferPos = Returns (w', e')" for w' e'
  proof (cases "sampleLength (osc1 e2) \<le> cacheWriteIndex (osc1 e2)")
    case False
    with r ms have "w' = w2\<lparr>objs := h\<rparr>" by simp
    then show ?thesis using o b(2) by simp
  next
    case True
    with r ms have cb: "calculateBuffers n ext (w2\<lparr>objs := h\<rparr>) e2 = Returns (w', e')" by simp
    have "out < nextFree (w2\<lparr>objs := h\<rparr>)" "b < nextFree (w2\<lparr>objs := h\<rparr>)"
      using nf b(3,4) by simp_all
    from calculateBuffers_streaming_frame[OF st cb this(1)]
      calculateBuffers_streaming_frame[OF st cb this(2)]
    show ?thesis using o b(2) by simp
  qed
  from o s c ms post show ?thesis unfolding oo by blast
qed

lemmas mix_defs = mixBuffer_def mixSlice_def exampleMixWorld_def calculateBuffers_def cache_def


section \<open>Claims about \<^verbatim>\<open>AudioBuffer::mergeBuffers\<close>\<close>

text \<open>
  C8.  A call whose source pointer is null, or whose write offset is not below the target's
  \<^verbatim>\<open>bufferSize\<close>, returns 0 and leaves the whole store as it was: no sample is written and
  nothing faults.
\<close>

theorem mergeBuffers_guard_noop:
  "aBuffer = None \<or> bufferSize (h this) \<le> aWriteOffset \<Longrightarrow>
   mergeBuffers h this aBuffer aReadOffset aWriteOffset aMixVolume = Returns (h, 0)"
  by (auto simp: mergeBuffers_def split: option.splits)

theorem mergeBuffers_guard_noop_witness:
  "bufferSize (twoBuffers (mkBuffer False [[10, 20]]) (mkBuffer True [[1]]) 0) \<le> 2 \<and>
   mergeBuffers (twoBuffers (mkBuffer False [[10, 20]]) (mkBuffer True [[1]])) 0 (Some 1) 0 2 1 =
     Returns (twoBuffers (mkBuffer False [[10, 20]]) (mkBuffer True [[1]]), 0)"
proof -
  have g: "bufferSize (twoBuffers (mkBuffer False [[10, 20]]) (mkBuffer True [[1]]) 0) \<le> 2"
    by (simp add: twoBuffers_def mkBuffer_def)
  then have "Some (1::addr) = None \<or>
      bufferSize (twoBuffers (mkBuffer False [[10, 20]]) (mkBuffer True [[1]]) 0) \<le> 2"
    by simp
  from mergeBuffers_guard_noop[where aBuffer = "Some 1" and this = 0 and aWriteOffset = 2
      and h = "twoBuffers (mkBuffer False [[10, 20]]) (mkBuffer True [[1]])", OF this] g
  show ?thesis by simp
qed




text \<open>
  C10, as stated, fails when the source pointer is the target itself: then the source's
  contents are the samples that are written.  Merging a one-channel buffer \<open>[1, 2]\<close> into
  itself at gain 1 leaves it as \<open>[2, 4]\<close>.
\<close>

theorem mergeBuffers_alias_counterexample:
  "objectAfter 0 (mergeBuffers (twoBuffers (mkBuffer False [[1, 2]]) (mkBuffer False [[0]]))
                    0 (Some 0) 0 0 1) = Returns ([[2, 4]], 2)"
  by (simp add: objectAfter_def mergeBuffers_def twoBuffers_def mkBuffer_def validChannel_def
      validIndex_def sampleAt_def setSample_def mergeChannels.simps mergeSamples.simps
      signed_divide_int_def)

text \<open>
  C10, amended.  For well-formed buffers with at least one channel each and offsets that are
  not negative, \<^verbatim>\<open>mergeBuffers\<close> returns a count \<open>n\<close>; a source that is another object than the
  target is left as it was; and in the target every sample is unchanged that lies in a channel
  not common to both buffers or at an index outside the \<open>n\<close> samples from the write offset.
\<close>

theorem mergeBuffers_frame:
  assumes "wellFormed (h this)" "wellFormed (h a)"
    and "1 \<le> amountOfChannels (h this)" "1 \<le> amountOfChannels (h a)"
    and "0 \<le> aReadOffset" "0 \<le> aWriteOffset"
  shows "\<exists>h' n. mergeBuffers h this (Some a) aReadOffset aWriteOffset aMixVolume = Returns (h', n) \<and>
          (a \<noteq> this \<longrightarrow> h' a = h a) \<and>
          (\<forall>ch j. \<not> (int ch < min (amountOfChannels (h this)) (amountOfChannels (h a)) \<and>
                    aWriteOffset \<le> int j \<and> int j < aWriteOffset + n) \<longrightarrow>
                 buffers (h' this) ! ch ! j = buffers (h this) ! ch ! j)"
proof (cases "aWriteOffset < bufferSize (h this)")
  case False
  then have "mergeBuffers h this (Some a) aReadOffset aWriteOffset aMixVolume = Returns (h, 0)"
    by (simp add: mergeBuffers_def)
  then show ?thesis by simp
next
  case True
  from mergeBuffers_spec[OF assms(1,2,6) True assms(5,3,4) refl refl, of aMixVolume]
  show ?thesis by blast
qed

theorem mergeBuffers_frame_witness:
  "wellFormed (mkBuffer False [[10, 20, 30], [40, 50, 60]]) \<and> wellFormed (mkBuffer True [[1, 2]]) \<and>
   (\<exists>h' n. mergeBuffers (twoBuffers (mkBuffer False [[10, 20, 30], [40, 50, 60]]) (mkBuffer True [[1, 2]]))
             0 (Some 1) 0 1 1 = Returns (h', n) \<and>
          h' 1 = mkBuffer True [[1, 2]] \<and>
          buffers (h' 0) ! 0 ! 0 = 10 \<and> buffers (h' 0) ! 1 ! 1 = 50)"
proof -
  let ?h = "twoBuffers (mkBuffer False [[10, 20, 30], [40, 50, 60]]) (mkBuffer True [[1, 2]])"
  have w: "wellFormed (?h 0)" "wellFormed (?h 1)"
    "1 \<le> amountOfChannels (?h 0)" "1 \<le> amountOfChannels (?h 1)"
    "(0::int) \<le> 0" "(0::int) \<le> 1"
    by (simp_all add: twoBuffers_def mkBuffer_def wellFormed_def)
  from mergeBuffers_frame[OF w, of 1]
  obtain h' n where r: "mergeBuffers ?h 0 (Some 1) 0 1 1 = Returns (h', n)"
    and s: "(1::nat) \<noteq> 0 \<longrightarrow> h' 1 = ?h 1"
    and f: "\<forall>ch j. \<not> (int ch < min (amountOfChannels (?h 0)) (amountOfChannels (?h 1)) \<and>
                    1 \<le> int j \<and> int j < 1 + n) \<longrightarrow>
                 buffers (h' 0) ! ch ! j = buffers (?h 0) ! ch ! j"
    by blast
  have sz: "min (amountOfChannels (?h 0)) (amountOfChannels (?h 1)) = 1"
    by (simp add: twoBuffers_def mkBuffer_def)
  have "buffers (h' 0) ! 0 ! 0 = 10" using f[rule_format, of 0 0] by (simp add: twoBuffers_def mkBuffer_def)
  moreover have "buffers (h' 0) ! 1 ! 1 = 50" using f[rule_format, of 1 1] by (simp add: twoBuffers_def mkBuffer_def)
  moreover have "h' 1 = mkBuffer True [[1, 2]]" using s by (simp add: twoBuffers_def)
  ultimately show ?thesis using r w(1,2)
    by (auto simp: twoBuffers_def mkBuffer_def)
qed

section \<open>Claims about \<^verbatim>\<open>SynthEvent\<close>\<close>

text \<open>
  C6.  Whenever a call of \<^verbatim>\<open>render\<close> returns, the flag \<^verbatim>\<open>_cancel\<close> is false: whatever the flag
  was on entry, whatever requests arrived while the loop ran, and also when the pass went
  through \<^verbatim>\<open>calculateBuffers\<close> because of a cancel.
\<close>

theorem render_clears_cancel:
  "render n ext w aOutputBuffer e = Returns (w', e') \<Longrightarrow> \<not> cancel (osc1 e')"
proof (cases n)
  case 0
  assume "render n ext w aOutputBuffer e = Returns (w', e')"
  with 0 show ?thesis by simp
next
  case (Suc m)
  assume "render n ext w aOutputBuffer e = Returns (w', e')"
  with Suc show ?thesis
    by (auto simp: renderBody_def bnd_Returns_iff case_prod_beta Let_def split: option.splits
        dest: renderEpilogue_cancel)
qed

text \<open>
  The witness is a sequenced event in caching mode whose cancellation is requested while the
  loop is at sample 1: the pass stops there, goes through \<^verbatim>\<open>calculateBuffers\<close> and returns
  with the flag clear.
\<close>

theorem render_clears_cancel_witness:
  "eventAfter cancel
     (render 1 ((exampleEngine True 4)\<lparr>cancelRequested := (\<lambda>i. i = 1)\<rparr>)
        (exampleWorld (mkBuffer False [[9, 9, 9, 9, 9, 9, 9, 9]])) (Some 0)
        (SynthEvent (exampleOscillator True False (Some 0)) None)) = Returns False"
proof -
  have "\<exists>w' e'. render 1 ((exampleEngine True 4)\<lparr>cancelRequested := (\<lambda>i. i = 1)\<rparr>)
        (exampleWorld (mkBuffer False [[9, 9, 9, 9, 9, 9, 9, 9]])) (Some 0)
        (SynthEvent (exampleOscillator True False (Some 0)) None) = Returns (w', e')"
    by (simp add: eval_defs)
  then obtain w' e' where r: "render 1 ((exampleEngine True 4)\<lparr>cancelRequested := (\<lambda>i. i = 1)\<rparr>)
        (exampleWorld (mkBuffer False [[9, 9, 9, 9, 9, 9, 9, 9]])) (Some 0)
        (SynthEvent (exampleOscillator True False (Some 0)) None) = Returns (w', e')"
    by blast
  from render_clears_cancel[OF r] r show ?thesis
    by (simp add: eventAfter_def)
qed










text \<open>
  C4.  A sequenced event leaves its constructor through \<^verbatim>\<open>calculateBuffers\<close> with the lock
  clear (lines 703 and 749).  After that call, and after every later call of
  \<^verbatim>\<open>calculateBuffers\<close>, whatever happened to the event in between that does not itself write
  the sample window (new position, new length, a lock, a cache request), the event has
  \<^verbatim>\<open>_sampleEnd - _sampleStart == _sampleLength\<close>.  The base class's \<^verbatim>\<open>resetCache\<close> is taken
  to leave the sample window alone.
\<close>

theorem calculateBuffers_geometry_invariant:
  assumes "isSequenced (osc1 e)" and "\<not> locked (osc1 e)"
    and "resetKeepsGeometry ext"
    and "calculateBuffers n ext w e = Returns (w1, e1)"
    and "\<forall>g \<in> set gs. \<forall>x. keepsGeometry (osc1 x) (osc1 (g x))"
    and "recalculations n ext gs w1 e1 = Returns (w2, e2)"
  shows "sampleEnd (osc1 e2) - sampleStart (osc1 e2) = sampleLength (osc1 e2)"
proof -
  have "geometric e1"
    using calculateBuffers_geometric[OF assms(4) assms(1) _ assms(3)] assms(2) by simp
  then have "geometric e2"
    using assms(5,6) by (rule recalculations_geometric[OF assms(3)])
  then show ?thesis by (simp add: geometric_def)
qed

text \<open>
  The witness: an event constructed with a window that does not add up, then moved to
  position 3 with a length of 2.5 steps, then locked and moved again; with 2 samples per step
  the window ends as \<open>[6, 11)\<close> of length 5, since the locked call leaves it.
\<close>

theorem calculateBuffers_geometry_invariant_witness:
  "isSequenced (osc1 (SynthEvent ((exampleOscillator True False None)\<lparr>sampleEnd := 5\<rparr>) None)) \<and>
   resetKeepsGeometry (exampleEngine False 4) \<and>
   (\<exists>w1 e1 w2 e2.
      calculateBuffers 1 (exampleEngine False 4) (exampleWorld (mkBuffer False []))
        (SynthEvent ((exampleOscillator True False None)\<lparr>sampleEnd := 5\<rparr>) None) = Returns (w1, e1) \<and>
      recalculations 1 (exampleEngine False 4)
        [\<lambda>x. SynthEvent ((osc1 x)\<lparr>position := 3, lengthSteps := 5 / 2\<rparr>) (osc2 x),
         \<lambda>x. SynthEvent ((osc1 x)\<lparr>position := 7, locked := True\<rparr>) (osc2 x)] w1 e1
        = Returns (w2, e2) \<and>
      sampleStart (osc1 e2) = 6 \<and> sampleLength (osc1 e2) = 5 \<and>
      sampleEnd (osc1 e2) - sampleStart (osc1 e2) = sampleLength (osc1 e2))"
proof -
  let ?ext = "exampleEngine False 4"
  let ?w = "exampleWorld (mkBuffer False [])"
  let ?e = "SynthEvent ((exampleOscillator True False None)\<lparr>sampleEnd := 5\<rparr>) None"
  let ?gs = "[\<lambda>x. SynthEvent ((osc1 x)\<lparr>position := 3, lengthSteps := 5 / 2\<rparr>) (osc2 x),
         \<lambda>x. SynthEvent ((osc1 x)\<lparr>position := 7, locked := True\<rparr>) (osc2 x)]"
  have h: "isSequenced (osc1 ?e)" "\<not> locked (osc1 ?e)"
    by (simp_all add: exampleOscillator_def)
  have rk: "resetKeepsGeometry ?ext"
    by (simp add: resetKeepsGeometry_def keepsGeometry_def exampleEngine_def)
  have ch: "\<forall>g \<in> set ?gs. \<forall>x. keepsGeometry (osc1 x) (osc1 (g x))"
    by (simp add: keepsGeometry_def)
  have "\<exists>w1 e1 w2 e2. calculateBuffers 1 ?ext ?w ?e = Returns (w1, e1) \<and>
      recalculations 1 ?ext ?gs w1 e1 = Returns (w2, e2) \<and>
      sampleStart (osc1 e2) = 6 \<and> sampleLength (osc1 e2) = 5"
    by (simp add: calculateBuffers_def cache_def eval_defs)
  then obtain w1 e1 w2 e2 where c1: "calculateBuffers 1 ?ext ?w ?e = Returns (w1, e1)"
    and c2: "recalculations 1 ?ext ?gs w1 e1 = Returns (w2, e2)"
    and v: "sampleStart (osc1 e2) = 6" "sampleLength (osc1 e2) = 5" by blast
  from calculateBuffers_geometry_invariant[OF h rk c1 ch c2] h(1) rk c1 c2 v
  show ?thesis by blast
qed

end
